theory Spec2Isabelle
  imports Main "HOL-Library.Multiset"
begin

section \<open>Data model\<close>

text \<open>
  A listing is the JSON object of the catalog: the keys \<open>id\<close>, \<open>location_id\<close>, \<open>width\<close>,
  \<open>length\<close> and \<open>price_in_cents\<close>. The two identities are left polymorphic (the code only
  compares and copies them); the three numbers are Python integers. Equality of records is
  equality of all fields, as \<open>==\<close> on the dictionaries is, which is what \<open>list.remove\<close> and
  \<open>in\<close> use.
\<close>

record ('i, 'l) listing =
  listing_id :: 'i
  location_id :: 'l
  width :: int
  listing_length :: int
  price_in_cents :: int

text \<open>One entry of the vehicle request: the keys \<open>length\<close> and \<open>quantity\<close>.\<close>

record vehicle =
  vehicle_length :: int
  quantity :: int

text \<open>The dictionary \<open>best_arrangement_for_this_loc\<close> of \<open>find_cheapest_for_location\<close>.\<close>

record ('i, 'l) arrangement =
  split_of_cars :: "nat list"
  listings_used :: "('i, 'l) listing list"
  total_price_in_cents :: int

text \<open>One entry of \<open>overall_results\<close>.\<close>

record ('i, 'l) location_result =
  res_location_id :: 'l
  res_total_price_in_cents :: int
  listing_ids :: "'i list"

text \<open>
  The price to beat is \<open>float('inf')\<close> until an arrangement is found and an integer
  afterwards. \<open>price_ge p b\<close> is \<open>p >= b\<close> and \<open>price_lt p b\<close> is \<open>p < b\<close> for an integer
  \<open>p\<close>.
\<close>

datatype price_bound = Infinity | Finite int

fun price_ge :: "int \<Rightarrow> price_bound \<Rightarrow> bool" where
  "price_ge p Infinity = False"
| "price_ge p (Finite b) = (b \<le> p)"

fun price_lt :: "int \<Rightarrow> price_bound \<Rightarrow> bool" where
  "price_lt p Infinity = True"
| "price_lt p (Finite b) = (p < b)"

datatype py_error = ZeroDivisionError

section \<open>Geometry and the scan of a pool\<close>

definition endToEnd :: "int \<Rightarrow> int \<Rightarrow> int \<times> int" where
  "endToEnd carLength numCars = (carLength * numCars, numCars * 10)"

definition sideBySide :: "int \<Rightarrow> int \<Rightarrow> int \<times> int" where
  "sideBySide carLength numCars = (10 * numCars, carLength)"

text \<open>The \<open>for\<close> loop of \<open>find_cheapest_spot_optimized\<close>, with the two footprints computed
  before it.\<close>

fun scan_listings ::
  "int \<times> int \<Rightarrow> int \<times> int \<Rightarrow> ('i, 'l) listing list \<Rightarrow> ('i, 'l) listing option" where
  "scan_listings e2e sbs [] = None"
| "scan_listings (e2ewidth, e2elength) (sbswidth, sbslength) (listing # rest) =
     (if (e2elength \<le> listing_length listing \<and> e2ewidth \<le> width listing) \<or>
         (sbslength \<le> listing_length listing \<and> sbswidth \<le> width listing)
      then Some listing
      else scan_listings (e2ewidth, e2elength) (sbswidth, sbslength) rest)"

definition find_cheapest_spot_optimized ::
  "int \<Rightarrow> int \<Rightarrow> ('i, 'l) listing list \<Rightarrow> ('i, 'l) listing option" where
  "find_cheapest_spot_optimized numCars carLength available_listings =
     scan_listings (endToEnd carLength numCars) (sideBySide carLength numCars) available_listings"

text \<open>
  The specification's words for the same test (section 4.1): a footprint is a
  (width, length) pair, and a listing is compatible when it dominates, in both dimensions,
  the end-to-end or the side-by-side footprint.
\<close>

definition dominates :: "('i, 'l) listing \<Rightarrow> int \<times> int \<Rightarrow> bool" where
  "dominates l fp = (snd fp \<le> listing_length l \<and> fst fp \<le> width l)"

definition isCompatible :: "('i, 'l) listing \<Rightarrow> int \<Rightarrow> int \<Rightarrow> bool" where
  "isCompatible l vehicleLength groupSize =
     (dominates l (vehicleLength * groupSize, groupSize * 10) \<or>
      dominates l (10 * groupSize, vehicleLength))"

section \<open>Partitions and orderings\<close>

text \<open>
  A generator is the list of what it yields, or the exception that ends it. \<open>yield_all\<close>
  chains the generators of the recursive calls: the first exception ends the whole.
\<close>

fun yield_all :: "(py_error + 'a list) list \<Rightarrow> py_error + 'a list" where
  "yield_all [] = Inr []"
| "yield_all (Inl e # rest) = Inl e"
| "yield_all (Inr xs # rest) =
     (case yield_all rest of Inl e \<Rightarrow> Inl e | Inr ys \<Rightarrow> Inr (xs @ ys))"

text \<open>
  \<open>find_partitions\<close> on natural numbers, where \<open>//\<close> is \<open>div\<close> and \<open>total_cars - i\<close> is exact
  (\<open>i \<le> total_cars div num_sets\<close>). With \<open>num_sets = 0\<close> the division raises.
\<close>

fun find_partitions :: "nat \<Rightarrow> nat \<Rightarrow> nat \<Rightarrow> py_error + nat list list" where
  "find_partitions total_cars num_sets start =
     (if num_sets = 1 then Inr (if start \<le> total_cars then [[total_cars]] else [])
      else if num_sets = 0 then Inl ZeroDivisionError
      else yield_all
             (map (\<lambda>i. map_sum id (map ((#) i))
                          (find_partitions (total_cars - i) (num_sets - 1) i))
                  [start ..< total_cars div num_sets + 1]))"

declare find_partitions.simps [simp del]

text \<open>\<open>itertools.permutations\<close>: every position in turn first, then the permutations of
  the other positions.\<close>

function permutations :: "'a list \<Rightarrow> 'a list list" where
  "permutations xs =
     (if xs = [] then [[]]
      else concat (map (\<lambda>i. map ((#) (xs ! i)) (permutations (take i xs @ drop (Suc i) xs)))
                       [0 ..< length xs]))"
  by pat_completeness auto
termination
  by (relation "measure length") auto

declare permutations.simps [simp del]

text \<open>
  \<open>set(permutations(partition))\<close> is iterated in an order the language leaves to the
  implementation. The order is a parameter \<open>set_iter\<close> of the search: any function that
  lists each distinct element of its argument once.
\<close>

definition set_iteration :: "(nat list list \<Rightarrow> nat list list) \<Rightarrow> bool" where
  "set_iteration set_iter = (\<forall>xs. distinct (set_iter xs) \<and> set (set_iter xs) = set xs)"

section \<open>Group search\<close>

text \<open>
  The loop over the sub-groups of one ordering. The result is \<open>is_possible\<close>,
  \<open>used_listings\<close> and \<open>current_price\<close> when the loop ends.
\<close>

fun place_groups ::
  "int \<Rightarrow> price_bound \<Rightarrow> nat list \<Rightarrow> ('i, 'l) listing list \<Rightarrow> ('i, 'l) listing list \<Rightarrow> int
     \<Rightarrow> bool \<times> ('i, 'l) listing list \<times> int" where
  "place_groups carLength cheapest [] temp_listings used_listings current_price =
     (True, used_listings, current_price)"
| "place_groups carLength cheapest (group_size # rest) temp_listings used_listings current_price =
     (if price_ge current_price cheapest then (False, used_listings, current_price)
      else case find_cheapest_spot_optimized (int group_size) carLength temp_listings of
             Some spot \<Rightarrow>
               place_groups carLength cheapest rest (remove1 spot temp_listings)
                 (used_listings @ [spot]) (current_price + price_in_cents spot)
           | None \<Rightarrow> (False, used_listings, current_price))"

text \<open>The body of the loop over the orderings; the state is
  \<open>(cheapest_price_for_this_loc, best_arrangement_for_this_loc)\<close>.\<close>

definition try_ordering ::
  "int \<Rightarrow> ('i, 'l) listing list \<Rightarrow> nat list
     \<Rightarrow> price_bound \<times> ('i, 'l) arrangement option
     \<Rightarrow> price_bound \<times> ('i, 'l) arrangement option" where
  "try_ordering carLength listings_at_location p_ordering st =
     (case place_groups carLength (fst st) p_ordering listings_at_location [] 0 of
        (is_possible, used_listings, current_price) \<Rightarrow>
          if is_possible \<and> price_lt current_price (fst st)
          then (Finite current_price,
                Some \<lparr>split_of_cars = p_ordering, listings_used = used_listings,
                      total_price_in_cents = current_price\<rparr>)
          else st)"

text \<open>The loop over \<open>num_groups\<close>, with the two loops inside it.\<close>

fun search_group_counts ::
  "(nat list list \<Rightarrow> nat list list) \<Rightarrow> nat \<Rightarrow> int \<Rightarrow> ('i, 'l) listing list \<Rightarrow> nat list
     \<Rightarrow> price_bound \<times> ('i, 'l) arrangement option
     \<Rightarrow> py_error + price_bound \<times> ('i, 'l) arrangement option" where
  "search_group_counts set_iter numCars carLength listings_at_location [] st = Inr st"
| "search_group_counts set_iter numCars carLength listings_at_location (num_groups # rest) st =
     (case find_partitions numCars num_groups 1 of
        Inl e \<Rightarrow> Inl e
      | Inr partitions \<Rightarrow>
          search_group_counts set_iter numCars carLength listings_at_location rest
            (fold (\<lambda>partition.
                     fold (try_ordering carLength listings_at_location)
                          (set_iter (permutations partition)))
                  partitions st))"

text \<open>\<open>range(1, numCars + 1)\<close> is empty for \<open>numCars \<le> 0\<close>; otherwise \<open>numCars\<close> is
  positive wherever it is used.\<close>

definition find_cheapest_for_location ::
  "(nat list list \<Rightarrow> nat list list) \<Rightarrow> int \<Rightarrow> int \<Rightarrow> ('i, 'l) listing list \<Rightarrow> price_bound
     \<Rightarrow> py_error + ('i, 'l) arrangement option" where
  "find_cheapest_for_location set_iter numCars carLength listings_at_location price_to_beat =
     (case search_group_counts set_iter (nat numCars) carLength listings_at_location
             [1 ..< nat numCars + 1] (price_to_beat, None) of
        Inl e \<Rightarrow> Inl e
      | Inr st \<Rightarrow> Inr (snd st))"

section \<open>Locations\<close>

text \<open>
  The \<open>defaultdict\<close> of \<open>group_listings_by_location\<close> is an association list in insertion
  order: \<open>dict_append\<close> is \<open>locations[k].append(v)\<close>.
\<close>

fun dict_append :: "'k \<Rightarrow> 'v \<Rightarrow> ('k \<times> 'v list) list \<Rightarrow> ('k \<times> 'v list) list" where
  "dict_append k v [] = [(k, [v])]"
| "dict_append k v ((k', vs) # d) =
     (if k = k' then (k', vs @ [v]) # d else (k', vs) # dict_append k v d)"

definition group_listings_by_location ::
  "('i, 'l) listing list \<Rightarrow> ('l \<times> ('i, 'l) listing list) list" where
  "group_listings_by_location listings =
     map (\<lambda>(loc_id, ls). (loc_id, sort_key price_in_cents ls))
         (fold (\<lambda>listing locations. dict_append (location_id listing) listing locations)
               listings [])"

text \<open>\<open>sorted(vehicle_request, key=..., reverse=True)\<close>: descending and stable.\<close>

definition sorted_request :: "vehicle list \<Rightarrow> vehicle list" where
  "sorted_request vehicle_request =
     sort_key (\<lambda>v. - (quantity v * vehicle_length v)) vehicle_request"

text \<open>The loop over the vehicle groups at one location. \<open>None\<close> is
  \<open>location_is_possible = False\<close>.\<close>

fun place_vehicle_groups ::
  "(nat list list \<Rightarrow> nat list list) \<Rightarrow> vehicle list \<Rightarrow> ('i, 'l) listing list
     \<Rightarrow> ('i, 'l) listing list \<Rightarrow> int \<Rightarrow> py_error + (('i, 'l) listing list \<times> int) option" where
  "place_vehicle_groups set_iter [] available used_listings_for_loc current_total_price =
     Inr (Some (used_listings_for_loc, current_total_price))"
| "place_vehicle_groups set_iter (vehicle_group # rest) available used_listings_for_loc
       current_total_price =
     (case find_cheapest_for_location set_iter (quantity vehicle_group)
             (vehicle_length vehicle_group) available Infinity of
        Inl e \<Rightarrow> Inl e
      | Inr None \<Rightarrow> Inr None
      | Inr (Some arr) \<Rightarrow>
          place_vehicle_groups set_iter rest
            (fold (\<lambda>spot av. if spot \<in> set av then remove1 spot av else av)
                  (listings_used arr) available)
            (used_listings_for_loc @ listings_used arr)
            (current_total_price + total_price_in_cents arr))"

text \<open>The loop over the locations, appending to \<open>overall_results\<close>.\<close>

fun solve_locations ::
  "(nat list list \<Rightarrow> nat list list) \<Rightarrow> vehicle list \<Rightarrow> ('l \<times> ('i, 'l) listing list) list
     \<Rightarrow> ('i, 'l) location_result list \<Rightarrow> py_error + ('i, 'l) location_result list" where
  "solve_locations set_iter vehicle_request [] overall_results = Inr overall_results"
| "solve_locations set_iter vehicle_request ((loc_id, listings) # rest) overall_results =
     (case place_vehicle_groups set_iter (sorted_request vehicle_request) listings [] 0 of
        Inl e \<Rightarrow> Inl e
      | Inr None \<Rightarrow> solve_locations set_iter vehicle_request rest overall_results
      | Inr (Some (used, price)) \<Rightarrow>
          solve_locations set_iter vehicle_request rest
            (overall_results @
               [\<lparr>res_location_id = loc_id, res_total_price_in_cents = price,
                 listing_ids = map listing_id used\<rparr>]))"

definition find_best_solution_with_grouping ::
  "(nat list list \<Rightarrow> nat list list) \<Rightarrow> vehicle list \<Rightarrow> ('i, 'l) listing list
     \<Rightarrow> py_error + ('i, 'l) location_result list" where
  "find_best_solution_with_grouping set_iter vehicle_request all_listings =
     (case solve_locations set_iter vehicle_request
             (group_listings_by_location all_listings) [] of
        Inl e \<Rightarrow> Inl e
      | Inr overall_results \<Rightarrow> Inr (sort_key res_total_price_in_cents overall_results))"

section \<open>Auxiliary notions\<close>

text \<open>
  The orderings that \<open>find_cheapest_for_location\<close> goes through, in the order of its three
  nested loops.
\<close>

definition explored_orderings ::
  "(nat list list \<Rightarrow> nat list list) \<Rightarrow> nat \<Rightarrow> nat list list" where
  "explored_orderings set_iter numCars =
     concat (map (\<lambda>num_groups.
                    concat (map (\<lambda>partition. set_iter (permutations partition))
                                (projr (find_partitions numCars num_groups 1))))
                 [1 ..< numCars + 1])"

text \<open>
  The distinct elements of a list in the order of their first occurrence, and the position
  of the first occurrence of an element (the length of the list when it does not occur).
\<close>

primrec first_occurrences :: "'a list \<Rightarrow> 'a list" where
  "first_occurrences [] = []"
| "first_occurrences (x # xs) = x # filter (\<lambda>y. y \<noteq> x) (first_occurrences xs)"

primrec first_index :: "'a \<Rightarrow> 'a list \<Rightarrow> nat" where
  "first_index x [] = 0"
| "first_index x (y # ys) = (if x = y then 0 else Suc (first_index x ys))"

text \<open>
  The specification's notions for the group search (section 4.4). A partition of \<open>numCars\<close>
  is a non-decreasing tuple of positive parts that sum to \<open>numCars\<close>; an ordering of it is
  any rearrangement. An ordering is served greedily: each sub-group in turn takes the first
  compatible listing of the remaining pool, which is removed. The result is the listings
  taken and their total price, or none when some sub-group finds no listing.
\<close>

definition is_partition :: "nat \<Rightarrow> nat list \<Rightarrow> bool" where
  "is_partition numCars p =
     (p \<noteq> [] \<and> sorted p \<and> list_all (\<lambda>part. 1 \<le> part) p \<and> sum_list p = numCars)"

fun greedy_assignment ::
  "int \<Rightarrow> ('i, 'l) listing list \<Rightarrow> nat list \<Rightarrow> (('i, 'l) listing list \<times> int) option" where
  "greedy_assignment vehicleLength pool [] = Some ([], 0)"
| "greedy_assignment vehicleLength pool (groupSize # rest) =
     (case find (\<lambda>l. isCompatible l vehicleLength (int groupSize)) pool of
        None \<Rightarrow> None
      | Some l \<Rightarrow>
          (case greedy_assignment vehicleLength (remove1 l pool) rest of
             None \<Rightarrow> None
           | Some (used, price) \<Rightarrow> Some (l # used, price_in_cents l + price)))"

text \<open>
  The state of the search after the orderings \<open>seen\<close>, started with no price to beat:
  nothing recorded and no ordering of \<open>seen\<close> feasible, or the recorded arrangement is the
  greedy assignment of one of them and no feasible one is cheaper.
\<close>

fun not_above :: "int \<Rightarrow> (('i, 'l) listing list \<times> int) option \<Rightarrow> bool" where
  "not_above bound None = True"
| "not_above bound (Some (used, price)) = (bound \<le> price)"

definition search_state ::
  "int \<Rightarrow> ('i, 'l) listing list \<Rightarrow> nat list list
     \<Rightarrow> price_bound \<times> ('i, 'l) arrangement option \<Rightarrow> bool" where
  "search_state vehicleLength pool seen st =
     (case snd st of
        None \<Rightarrow> fst st = Infinity \<and>
                 list_all (\<lambda>ordering. greedy_assignment vehicleLength pool ordering = None) seen
      | Some arr \<Rightarrow>
          fst st = Finite (total_price_in_cents arr) \<and>
          split_of_cars arr \<in> set seen \<and>
          greedy_assignment vehicleLength pool (split_of_cars arr) =
            Some (listings_used arr, total_price_in_cents arr) \<and>
          list_all (\<lambda>ordering.
                      not_above (total_price_in_cents arr)
                        (greedy_assignment vehicleLength pool ordering)) seen)"

text \<open>
  The specification's location solver (section 4.5) as a predicate: the vehicle groups, in
  the order given, are each placed by the group search (no price to beat) on the pool that
  the earlier groups have left, and \<open>arrs\<close> are their arrangements.
\<close>

fun all_placed ::
  "(nat list list \<Rightarrow> nat list list) \<Rightarrow> vehicle list \<Rightarrow> ('i, 'l) listing list
     \<Rightarrow> ('i, 'l) arrangement list \<Rightarrow> bool" where
  "all_placed set_iter [] pool [] = True"
| "all_placed set_iter (v # vs) pool (arr # arrs) =
     (find_cheapest_for_location set_iter (quantity v) (vehicle_length v) pool Infinity
        = Inr (Some arr) \<and>
      all_placed set_iter vs (fold remove1 (listings_used arr) pool) arrs)"
| "all_placed set_iter [] pool (arr # arrs) = False"
| "all_placed set_iter (v # vs) pool [] = False"

text \<open>The body of the loop over the locations: the result appended for one location, if
  any.\<close>

definition solve_location ::
  "(nat list list \<Rightarrow> nat list list) \<Rightarrow> vehicle list \<Rightarrow> 'l \<times> ('i, 'l) listing list
     \<Rightarrow> ('i, 'l) location_result option" where
  "solve_location set_iter vehicle_request g =
     (case place_vehicle_groups set_iter (sorted_request vehicle_request) (snd g) [] 0 of
        Inr (Some (used, price)) \<Rightarrow>
          Some \<lparr>res_location_id = fst g, res_total_price_in_cents = price,
                listing_ids = map listing_id used\<rparr>
      | _ \<Rightarrow> None)"

section \<open>The scan of a pool\<close>

lemma scan_listings_find:
  "scan_listings e2e sbs ls = find (\<lambda>l. dominates l e2e \<or> dominates l sbs) ls"
proof -
  obtain ew el sw sl where p: "e2e = (ew, el)" "sbs = (sw, sl)"
    by (cases e2e, cases sbs) auto
  show ?thesis unfolding p
    by (induction ls) (auto simp: dominates_def)
qed

lemma spot_find:
  "find_cheapest_spot_optimized n len ls = find (\<lambda>l. isCompatible l len n) ls"
  by (simp add: find_cheapest_spot_optimized_def scan_listings_find isCompatible_def
      endToEnd_def sideBySide_def)

text \<open>
  Claim C4. The end-to-end footprint is (width = vehicleLength * groupSize,
  length = groupSize * 10), the side-by-side footprint is (width = 10 * groupSize,
  length = vehicleLength), and a listing can be selected by the scan of some pool exactly
  when its length and width are each at least the corresponding dimension of one of the
  two footprints; that is the specification's \<open>isCompatible\<close>, which also decides the scan of
  the one-listing pool.
\<close>

theorem footprints_and_compatibility:
  "endToEnd vehicleLength groupSize = (vehicleLength * groupSize, groupSize * 10) \<and>
   sideBySide vehicleLength groupSize = (10 * groupSize, vehicleLength) \<and>
   ((\<exists>pool. find_cheapest_spot_optimized groupSize vehicleLength pool = Some l) \<longleftrightarrow>
      (snd (endToEnd vehicleLength groupSize) \<le> listing_length l \<and>
       fst (endToEnd vehicleLength groupSize) \<le> width l) \<or>
      (snd (sideBySide vehicleLength groupSize) \<le> listing_length l \<and>
       fst (sideBySide vehicleLength groupSize) \<le> width l)) \<and>
   (find_cheapest_spot_optimized groupSize vehicleLength [l] = Some l
      \<longleftrightarrow> isCompatible l vehicleLength groupSize)"
proof -
  let ?c = "isCompatible l vehicleLength groupSize"
  have a: "?c \<longleftrightarrow> (snd (endToEnd vehicleLength groupSize) \<le> listing_length l \<and>
       fst (endToEnd vehicleLength groupSize) \<le> width l) \<or>
      (snd (sideBySide vehicleLength groupSize) \<le> listing_length l \<and>
       fst (sideBySide vehicleLength groupSize) \<le> width l)"
    by (simp add: isCompatible_def dominates_def endToEnd_def sideBySide_def)
  have b: "find_cheapest_spot_optimized groupSize vehicleLength [l] = Some l \<longleftrightarrow> ?c"
    by (simp add: spot_find)
  have c: "(\<exists>pool. find_cheapest_spot_optimized groupSize vehicleLength pool = Some l) \<longleftrightarrow> ?c"
  proof
    assume "\<exists>pool. find_cheapest_spot_optimized groupSize vehicleLength pool = Some l"
    then show ?c by (auto simp: spot_find find_Some_iff)
  next
    assume ?c
    with b show "\<exists>pool. find_cheapest_spot_optimized groupSize vehicleLength pool = Some l"
      by blast
  qed
  show ?thesis using a b c by (simp add: endToEnd_def sideBySide_def)
qed

text \<open>
  Claim C7. On a price-ascending pool, \<open>find_cheapest_spot_optimized\<close> returns a compatible
  listing of the pool whose price is minimal among the compatible listings of the pool, and
  it returns none exactly when no listing of the pool is compatible.
\<close>

theorem find_cheapest_spot_optimized_cheapest:
  assumes "sorted (map price_in_cents pool)"
  shows "case find_cheapest_spot_optimized groupSize vehicleLength pool of
           None \<Rightarrow> \<forall>l \<in> set pool. \<not> isCompatible l vehicleLength groupSize
         | Some s \<Rightarrow> s \<in> set pool \<and> isCompatible s vehicleLength groupSize \<and>
             (\<forall>l \<in> set pool. isCompatible l vehicleLength groupSize
                \<longrightarrow> price_in_cents s \<le> price_in_cents l)"
proof (cases "find_cheapest_spot_optimized groupSize vehicleLength pool")
  case None
  then have "\<forall>l \<in> set pool. \<not> isCompatible l vehicleLength groupSize"
    by (simp add: spot_find find_None_iff)
  with None show ?thesis by simp
next
  case (Some s)
  then obtain i where i: "i < length pool" "pool ! i = s" "isCompatible s vehicleLength groupSize"
    and before: "\<forall>j<i. \<not> isCompatible (pool ! j) vehicleLength groupSize"
    by (auto simp: spot_find find_Some_iff)
  have "price_in_cents s \<le> price_in_cents l"
    if "l \<in> set pool" "isCompatible l vehicleLength groupSize" for l
  proof -
    from that obtain k where k: "k < length pool" "pool ! k = l"
      by (auto simp: in_set_conv_nth)
    with that before have "i \<le> k" by (meson not_le_imp_less)
    with assms k i show ?thesis
      using sorted_nth_mono [of "map price_in_cents pool" i k] by simp
  qed
  with Some i show ?thesis by auto
qed

theorem find_cheapest_spot_optimized_cheapest_witness:
  "sorted (map price_in_cents
      [\<lparr>listing_id = (1::nat), location_id = ''L1'', width = 10, listing_length = 10,
         price_in_cents = 100\<rparr>,
       \<lparr>listing_id = 2, location_id = ''L1'', width = 20, listing_length = 20,
         price_in_cents = 200\<rparr>,
       \<lparr>listing_id = 3, location_id = ''L1'', width = 40, listing_length = 20,
         price_in_cents = 300\<rparr>]) \<and>
   find_cheapest_spot_optimized 2 10
      [\<lparr>listing_id = (1::nat), location_id = ''L1'', width = 10, listing_length = 10,
         price_in_cents = 100\<rparr>,
       \<lparr>listing_id = 2, location_id = ''L1'', width = 20, listing_length = 20,
         price_in_cents = 200\<rparr>,
       \<lparr>listing_id = 3, location_id = ''L1'', width = 40, listing_length = 20,
         price_in_cents = 300\<rparr>]
     = Some \<lparr>listing_id = 2, location_id = ''L1'', width = 20, listing_length = 20,
              price_in_cents = 200\<rparr> \<and>
   \<not> isCompatible \<lparr>listing_id = (1::nat), location_id = ''L1'', width = 10,
         listing_length = 10, price_in_cents = 100\<rparr> 10 2 \<and>
   isCompatible \<lparr>listing_id = (3::nat), location_id = ''L1'', width = 40,
         listing_length = 20, price_in_cents = 300\<rparr> 10 2"
  using find_cheapest_spot_optimized_cheapest
    [of "[\<lparr>listing_id = (1::nat), location_id = ''L1'', width = 10, listing_length = 10,
            price_in_cents = 100\<rparr>,
          \<lparr>listing_id = 2, location_id = ''L1'', width = 20, listing_length = 20,
            price_in_cents = 200\<rparr>,
          \<lparr>listing_id = 3, location_id = ''L1'', width = 40, listing_length = 20,
            price_in_cents = 300\<rparr>]" 2 10]
  by (simp add: find_cheapest_spot_optimized_def endToEnd_def sideBySide_def
      isCompatible_def dominates_def)

section \<open>The search raises no exception\<close>

lemma yield_all_map_Inr:
  "\<forall>x \<in> set xs. \<exists>ys. f x = Inr ys
    \<Longrightarrow> yield_all (map f xs) = Inr (concat (map (\<lambda>x. projr (f x)) xs))"
  by (induction xs) auto

lemma find_partitions_total: "0 < n \<Longrightarrow> \<exists>ps. find_partitions t n s = Inr ps"
proof (induction n arbitrary: t s)
  case 0
  then show ?case by simp
next
  case (Suc n)
  show ?case
  proof (cases "n = 0")
    case True
    then show ?thesis by (simp add: find_partitions.simps)
  next
    case False
    then have "\<exists>ys. map_sum id (map ((#) i)) (find_partitions (t - i) n i) = Inr ys" for i
      using Suc.IH [of "t - i" i] by auto
    then have "\<forall>i \<in> set [s ..< t div Suc n + 1].
        \<exists>ys. map_sum id (map ((#) i)) (find_partitions (t - i) n i) = Inr ys"
      by blast
    then show ?thesis
      using False
      by (subst find_partitions.simps) (simp add: yield_all_map_Inr)
  qed
qed

lemma find_partitions_one:
  "find_partitions t (Suc 0) s = Inr (if s \<le> t then [[t]] else [])"
  by (simp add: find_partitions.simps)

lemma find_partitions_step:
  assumes "0 < n"
  shows "find_partitions t (Suc n) s =
     Inr (concat (map (\<lambda>i. map ((#) i) (projr (find_partitions (t - i) n i)))
                      [s ..< t div Suc n + 1]))"
proof -
  have "\<exists>ys. map_sum id (map ((#) i)) (find_partitions (t - i) n i) = Inr ys" for i
    using find_partitions_total [OF assms, of "t - i" i] by auto
  then have a: "\<forall>i \<in> set [s ..< t div Suc n + 1].
      \<exists>ys. map_sum id (map ((#) i)) (find_partitions (t - i) n i) = Inr ys"
    by blast
  have b: "projr (map_sum id (map ((#) i)) (find_partitions (t - i) n i))
         = map ((#) i) (projr (find_partitions (t - i) n i))" for i
    using find_partitions_total [OF assms, of "t - i" i] by auto
  have "find_partitions t (Suc n) s =
      yield_all (map (\<lambda>i. map_sum id (map ((#) i)) (find_partitions (t - i) n i))
                     [s ..< t div Suc n + 1])"
    using assms by (subst find_partitions.simps) (simp del: upt_Suc)
  also have "\<dots> = Inr (concat (map (\<lambda>i. projr (map_sum id (map ((#) i))
                                        (find_partitions (t - i) n i)))
                                 [s ..< t div Suc n + 1]))"
    by (rule yield_all_map_Inr [OF a])
  finally show ?thesis by (simp only: b)
qed

lemma fold_concat_map:
  "fold f (concat (map g xs)) st = fold (\<lambda>x. fold f (g x)) xs st"
  by (induction xs arbitrary: st) auto

lemma search_group_counts_fold:
  "\<forall>g \<in> set gs. 0 < g \<Longrightarrow>
   search_group_counts si n len ls gs st =
     Inr (fold (try_ordering len ls)
            (concat (map (\<lambda>num_groups.
                    concat (map (\<lambda>partition. si (permutations partition))
                                (projr (find_partitions n num_groups 1)))) gs)) st)"
proof (induction gs arbitrary: st)
  case Nil
  then show ?case by simp
next
  case (Cons g gs)
  then obtain ps where ps: "find_partitions n g 1 = Inr ps"
    using find_partitions_total [of g n 1] by auto
  with Cons show ?case
    by (simp add: fold_concat_map)
qed

lemma find_cheapest_for_location_fold:
  "find_cheapest_for_location si n len ls b =
     Inr (snd (fold (try_ordering len ls) (explored_orderings si (nat n)) (b, None)))"
  by (simp add: find_cheapest_for_location_def explored_orderings_def
      search_group_counts_fold)

lemma find_cheapest_for_location_nonpos:
  "n \<le> 0 \<Longrightarrow> find_cheapest_for_location si n len ls b = Inr None"
  by (simp add: find_cheapest_for_location_def)

lemma place_vehicle_groups_total:
  "\<exists>r. place_vehicle_groups si vs av used tot = Inr r"
  by (induction vs arbitrary: av used tot)
     (auto simp: find_cheapest_for_location_fold split: option.splits)

lemma place_vehicle_groups_quantity:
  "place_vehicle_groups si vs av used tot = Inr (Some r) \<Longrightarrow> v \<in> set vs \<Longrightarrow> 0 < quantity v"
proof (induction vs arbitrary: av used tot)
  case Nil
  then show ?case by simp
next
  case (Cons w ws)
  show ?case
  proof (cases "0 < quantity w")
    case True
    with Cons show ?thesis
      by (auto split: sum.splits option.splits)
  next
    case False
    then have "find_cheapest_for_location si (quantity w) (vehicle_length w) av Infinity = Inr None"
      by (simp add: find_cheapest_for_location_nonpos)
    with Cons.prems show ?thesis by simp
  qed
qed

lemma solve_locations_total:
  "\<exists>rs. solve_locations si req groups acc = Inr rs"
proof (induction groups arbitrary: acc)
  case Nil
  then show ?case by simp
next
  case (Cons g groups)
  obtain loc ls where g: "g = (loc, ls)" by (cases g)
  obtain r where "place_vehicle_groups si (sorted_request req) ls [] 0 = Inr r"
    using place_vehicle_groups_total by blast
  with Cons g show ?case
    by (cases r) (auto split: prod.splits)
qed

lemma solve_locations_none:
  "\<forall>g \<in> set groups. place_vehicle_groups si (sorted_request req) (snd g) [] 0 = Inr None
   \<Longrightarrow> solve_locations si req groups acc = Inr acc"
  by (induction groups arbitrary: acc) auto

text \<open>
  Claim C10. When the vehicle request contains a group with quantity 0 and the catalog is
  not empty, the solver returns the empty sequence: the group search for that group has no
  sub-group count to try and returns none, so no location places every group.
\<close>

theorem zero_quantity_no_result:
  fixes all_listings :: "('a, 'b) listing list"
  assumes "v \<in> set vehicle_request" and "quantity v = 0" and "all_listings \<noteq> []"
  shows "find_best_solution_with_grouping set_iter vehicle_request all_listings = Inr []"
proof -
  have "place_vehicle_groups set_iter (sorted_request vehicle_request) ls [] 0 = Inr None"
    for ls :: "('a, 'b) listing list"
  proof -
    obtain r where r: "place_vehicle_groups set_iter (sorted_request vehicle_request) ls [] 0 = Inr r"
      using place_vehicle_groups_total by blast
    have "r = None"
    proof (cases r)
      case (Some x)
      with r assms(1) have "0 < quantity v"
        using place_vehicle_groups_quantity [of set_iter "sorted_request vehicle_request" ls "[]" 0 x v]
        by (simp add: sorted_request_def)
      with assms(2) show ?thesis by simp
    qed simp
    with r show ?thesis by simp
  qed
  then have "solve_locations set_iter vehicle_request (group_listings_by_location all_listings) []
      = Inr []"
    by (intro solve_locations_none) simp
  then show ?thesis
    by (simp add: find_best_solution_with_grouping_def)
qed

theorem zero_quantity_no_result_witness:
  "\<lparr>vehicle_length = 10, quantity = 0\<rparr>
     \<in> set [\<lparr>vehicle_length = 20, quantity = 1\<rparr>, \<lparr>vehicle_length = 10, quantity = 0\<rparr>] \<and>
   quantity \<lparr>vehicle_length = 10, quantity = 0\<rparr> = 0 \<and>
   [\<lparr>listing_id = (1::nat), location_id = ''L1'', width = 30, listing_length = 20,
      price_in_cents = 500\<rparr>] \<noteq> [] \<and>
   find_best_solution_with_grouping remdups
     [\<lparr>vehicle_length = 20, quantity = 1\<rparr>, \<lparr>vehicle_length = 10, quantity = 0\<rparr>]
     [\<lparr>listing_id = (1::nat), location_id = ''L1'', width = 30, listing_length = 20,
        price_in_cents = 500\<rparr>] = Inr []"
  using zero_quantity_no_result
    [of "\<lparr>vehicle_length = 10, quantity = 0\<rparr>"
        "[\<lparr>vehicle_length = 20, quantity = 1\<rparr>, \<lparr>vehicle_length = 10, quantity = 0\<rparr>]"
        "[\<lparr>listing_id = (1::nat), location_id = ''L1'', width = 30, listing_length = 20,
            price_in_cents = 500\<rparr>]" remdups]
  by simp

section \<open>Grouping by location\<close>

lemma set_first_occurrences [simp]: "set (first_occurrences xs) = set xs"
  by (induction xs) auto

lemma distinct_first_occurrences [simp]: "distinct (first_occurrences xs)"
  by (induction xs) auto

lemma first_occurrences_snoc:
  "first_occurrences (xs @ [x]) =
     (if x \<in> set xs then first_occurrences xs else first_occurrences xs @ [x])"
  by (induction xs) auto

lemma first_occurrences_sorted_wrt:
  "sorted_wrt (\<lambda>a b. first_index a xs < first_index b xs) (first_occurrences xs)"
proof (induction xs)
  case Nil
  then show ?case by simp
next
  case (Cons x xs)
  have "sorted_wrt (\<lambda>a b. first_index a xs < first_index b xs)
          (filter (\<lambda>y. y \<noteq> x) (first_occurrences xs))"
    using Cons by (rule sorted_wrt_filter)
  then have "sorted_wrt (\<lambda>a b. first_index a (x # xs) < first_index b (x # xs))
          (filter (\<lambda>y. y \<noteq> x) (first_occurrences xs))"
    by (rule sorted_wrt_mono_rel [rotated]) auto
  then show ?case by auto
qed

lemma dict_append_keyed:
  "distinct ks \<Longrightarrow>
   dict_append k v (map (\<lambda>a. (a, f a)) ks) =
     (if k \<in> set ks then map (\<lambda>a. (a, if a = k then f a @ [v] else f a)) ks
      else map (\<lambda>a. (a, f a)) ks @ [(k, [v])])"
  by (induction ks) auto

lemma fold_dict_append:
  "fold (\<lambda>listing locations. dict_append (location_id listing) listing locations) ls [] =
     map (\<lambda>k. (k, filter (\<lambda>l. location_id l = k) ls)) (first_occurrences (map location_id ls))"
proof (induction ls rule: rev_induct)
  case Nil
  then show ?case by simp
next
  case (snoc l ls)
  show ?case
    by (auto simp: snoc first_occurrences_snoc dict_append_keyed filter_empty_conv
        intro: rev_image_eqI)
qed

lemma group_listings_by_location_eq:
  "group_listings_by_location all_listings =
     map (\<lambda>k. (k, sort_key price_in_cents (filter (\<lambda>l. location_id l = k) all_listings)))
         (first_occurrences (map location_id all_listings))"
  by (simp add: group_listings_by_location_def fold_dict_append)

lemma solve_locations_empty_request:
  "solve_locations si [] groups acc =
     Inr (acc @ map (\<lambda>g. \<lparr>res_location_id = fst g, res_total_price_in_cents = 0,
                              listing_ids = []\<rparr>) groups)"
  by (induction groups arbitrary: acc) (auto simp: sorted_request_def)

text \<open>
  Claim C1, as the code has it. With zero listings the solver returns the empty sequence.
  With an empty vehicle request it returns one result for every distinct location of the
  catalog, in the order of first occurrence, each with total price 0 and no listing id:
  the loop over the vehicle groups does not run and the location stays possible.
\<close>

theorem empty_input_results:
  fixes all_listings :: "('i, 'l) listing list"
  shows
  "find_best_solution_with_grouping set_iter vehicle_request ([] :: ('i, 'l) listing list) = Inr [] \<and>
   find_best_solution_with_grouping set_iter [] all_listings =
     Inr (map (\<lambda>loc. \<lparr>res_location_id = loc, res_total_price_in_cents = 0, listing_ids = []\<rparr>)
              (first_occurrences (map location_id all_listings)))"
proof -
  let ?r = "\<lambda>loc :: 'l. \<lparr>res_location_id = loc, res_total_price_in_cents = 0,
                         listing_ids = [] :: 'i list\<rparr>"
  have "sort_key res_total_price_in_cents (map ?r ks) = map ?r ks" for ks
    by (rule sort_key_id_if_sorted) (simp add: comp_def sorted_wrt_iff_nth_less)
  then have "find_best_solution_with_grouping set_iter [] all_listings =
     Inr (map ?r (first_occurrences (map location_id all_listings)))"
    by (simp add: find_best_solution_with_grouping_def solve_locations_empty_request
        group_listings_by_location_eq comp_def)
  moreover have "find_best_solution_with_grouping set_iter vehicle_request
      ([] :: ('i, 'l) listing list) = Inr []"
    by (simp add: find_best_solution_with_grouping_def group_listings_by_location_def)
  ultimately show ?thesis by simp
qed

theorem empty_input_results_witness:
  "find_best_solution_with_grouping remdups [\<lparr>vehicle_length = 10, quantity = 1\<rparr>]
     ([] :: (nat, string) listing list) = Inr [] \<and>
   find_best_solution_with_grouping remdups []
     [\<lparr>listing_id = (1::nat), location_id = ''L2'', width = 30, listing_length = 20,
        price_in_cents = 500\<rparr>,
      \<lparr>listing_id = 2, location_id = ''L1'', width = 30, listing_length = 20,
        price_in_cents = 400\<rparr>,
      \<lparr>listing_id = 3, location_id = ''L2'', width = 30, listing_length = 20,
        price_in_cents = 300\<rparr>]
   = Inr [\<lparr>res_location_id = ''L2'', res_total_price_in_cents = 0, listing_ids = []\<rparr>,
          \<lparr>res_location_id = ''L1'', res_total_price_in_cents = 0, listing_ids = []\<rparr>]"
  using empty_input_results
    [of remdups "[\<lparr>vehicle_length = 10, quantity = 1\<rparr>]"
        "[\<lparr>listing_id = (1::nat), location_id = ''L2'', width = 30, listing_length = 20,
            price_in_cents = 500\<rparr>,
          \<lparr>listing_id = 2, location_id = ''L1'', width = 30, listing_length = 20,
            price_in_cents = 400\<rparr>,
          \<lparr>listing_id = 3, location_id = ''L2'', width = 30, listing_length = 20,
            price_in_cents = 300\<rparr>]"]
  by simp

text \<open>
  Claim C1 as stated fails: an empty vehicle request with a one-listing catalog yields a
  result for the location of that listing.
\<close>

theorem empty_request_counterexample:
  "find_best_solution_with_grouping remdups []
     [\<lparr>listing_id = (1::nat), location_id = ''L1'', width = 30, listing_length = 20,
        price_in_cents = 500\<rparr>]
   = Inr [\<lparr>res_location_id = ''L1'', res_total_price_in_cents = 0, listing_ids = []\<rparr>] \<and>
   find_best_solution_with_grouping remdups []
     [\<lparr>listing_id = (1::nat), location_id = ''L1'', width = 30, listing_length = 20,
        price_in_cents = 500\<rparr>] \<noteq> Inr []"
  by code_simp

section \<open>A request that has to be split\<close>

lemma set_iteration_single:
  assumes "set_iteration si" and "set xs = {x}"
  shows "si xs = [x]"
proof -
  from assms have d: "distinct (si xs)" and s: "set (si xs) = {x}"
    by (auto simp: set_iteration_def)
  then obtain y ys where ys: "si xs = y # ys"
    by (cases "si xs") auto
  with d s have "y = x" "set ys \<subseteq> {x}" "x \<notin> set ys" by auto
  then have "ys = []" by (cases ys) auto
  with ys \<open>y = x\<close> show ?thesis by simp
qed

lemma explored_orderings_two:
  assumes "set_iteration si"
  shows "explored_orderings si 2 = [[2], [1, 1]]"
proof -
  have p1: "find_partitions 2 (Suc 0) (Suc 0) = Inr [[2]]" by code_simp
  have p2: "find_partitions 2 2 (Suc 0) = Inr [[Suc 0, Suc 0]]" by code_simp
  have q1: "permutations [2::nat] = [[2]]" by code_simp
  have q2: "permutations [Suc 0, Suc 0] = [[Suc 0, Suc 0], [Suc 0, Suc 0]]" by code_simp
  have r1: "si [[2]] = [[2]]" using assms by (rule set_iteration_single) simp
  have r2: "si [[Suc 0, Suc 0], [Suc 0, Suc 0]] = [[Suc 0, Suc 0]]"
    using assms by (rule set_iteration_single) simp
  have u: "[1 ..< 2 + 1] = [1, 2::nat]" by code_simp
  show ?thesis
    unfolding explored_orderings_def u by (simp add: p1 p2 q1 q2 r1 r2)
qed

text \<open>
  Claim C5. One vehicle group (length 10, quantity 2) and two listings at one location, each
  of width 10, length 10 and price 300: the solver returns exactly one result, of total
  price 600 with both listing ids. The group search returns the split into two sub-groups
  of one vehicle, since no listing takes the two vehicles together.
\<close>

theorem two_vehicles_split_scenario:
  assumes "set_iteration set_iter"
  shows
   "find_best_solution_with_grouping set_iter [\<lparr>vehicle_length = 10, quantity = 2\<rparr>]
      [\<lparr>listing_id = i1, location_id = loc, width = 10, listing_length = 10,
         price_in_cents = 300\<rparr>,
       \<lparr>listing_id = i2, location_id = loc, width = 10, listing_length = 10,
         price_in_cents = 300\<rparr>]
    = Inr [\<lparr>res_location_id = loc, res_total_price_in_cents = 600, listing_ids = [i1, i2]\<rparr>] \<and>
    find_cheapest_for_location set_iter 2 10
      [\<lparr>listing_id = i1, location_id = loc, width = 10, listing_length = 10,
         price_in_cents = 300\<rparr>,
       \<lparr>listing_id = i2, location_id = loc, width = 10, listing_length = 10,
         price_in_cents = 300\<rparr>] Infinity
    = Inr (Some \<lparr>split_of_cars = [1, 1],
                 listings_used =
                   [\<lparr>listing_id = i1, location_id = loc, width = 10, listing_length = 10,
                      price_in_cents = 300\<rparr>,
                    \<lparr>listing_id = i2, location_id = loc, width = 10, listing_length = 10,
                      price_in_cents = 300\<rparr>],
                 total_price_in_cents = 600\<rparr>) \<and>
    find_cheapest_spot_optimized 2 10
      [\<lparr>listing_id = i1, location_id = loc, width = 10, listing_length = 10,
         price_in_cents = 300\<rparr>,
       \<lparr>listing_id = i2, location_id = loc, width = 10, listing_length = 10,
         price_in_cents = 300\<rparr>] = None"
proof -
  let ?l1 = "\<lparr>listing_id = i1, location_id = loc, width = 10, listing_length = 10,
         price_in_cents = 300\<rparr>"
  let ?l2 = "\<lparr>listing_id = i2, location_id = loc, width = 10, listing_length = 10,
         price_in_cents = 300\<rparr>"
  have n: "nat 2 = 2" by simp
  have spot2: "find_cheapest_spot_optimized 2 10 [?l1, ?l2] = None"
    by (simp add: find_cheapest_spot_optimized_def endToEnd_def sideBySide_def)
  have spot1: "find_cheapest_spot_optimized 1 10 (?l1 # ls) = Some ?l1" for ls
    by (simp add: find_cheapest_spot_optimized_def endToEnd_def sideBySide_def)
  have spot1': "find_cheapest_spot_optimized 1 10 [?l2] = Some ?l2" 
    by (simp add: find_cheapest_spot_optimized_def endToEnd_def sideBySide_def)
  have fcl: "find_cheapest_for_location set_iter 2 10 [?l1, ?l2] Infinity
    = Inr (Some \<lparr>split_of_cars = [1, 1], listings_used = [?l1, ?l2],
                 total_price_in_cents = 600\<rparr>)"
    unfolding find_cheapest_for_location_fold n explored_orderings_two [OF assms]
    by (simp add: try_ordering_def spot2 spot1 spot1')
  have grp: "group_listings_by_location [?l1, ?l2] = [(loc, [?l1, ?l2])]"
    by (simp add: group_listings_by_location_def)
  have "find_best_solution_with_grouping set_iter [\<lparr>vehicle_length = 10, quantity = 2\<rparr>]
      [?l1, ?l2]
    = Inr [\<lparr>res_location_id = loc, res_total_price_in_cents = 600, listing_ids = [i1, i2]\<rparr>]"
    by (simp add: find_best_solution_with_grouping_def grp sorted_request_def fcl)
  with fcl spot2 show ?thesis by simp
qed

theorem two_vehicles_split_scenario_witness:
  "set_iteration remdups \<and>
   find_best_solution_with_grouping remdups [\<lparr>vehicle_length = 10, quantity = 2\<rparr>]
      [\<lparr>listing_id = (1::nat), location_id = ''L1'', width = 10, listing_length = 10,
         price_in_cents = 300\<rparr>,
       \<lparr>listing_id = 2, location_id = ''L1'', width = 10, listing_length = 10,
         price_in_cents = 300\<rparr>]
    = Inr [\<lparr>res_location_id = ''L1'', res_total_price_in_cents = 600, listing_ids = [1, 2]\<rparr>]"
proof -
  have h: "set_iteration remdups" by (simp add: set_iteration_def)
  show ?thesis using h two_vehicles_split_scenario [OF h, of "1::nat" "''L1''" "2::nat"] by simp
qed

section \<open>The partition generator\<close>

lemma sum_list_lower:
  "\<forall>x \<in> set q. i \<le> x \<Longrightarrow> i * length q \<le> sum_list (q :: nat list)"
  by (induction q) auto

lemma find_partitions_set:
  "0 < n \<Longrightarrow>
   set (projr (find_partitions t n s)) =
     {p. length p = n \<and> sorted p \<and> (\<forall>x \<in> set p. s \<le> x) \<and> sum_list p = t}"
proof (induction n arbitrary: t s)
  case 0
  then show ?case by simp
next
  case (Suc n)
  show ?case
  proof (cases "n = 0")
    case True
    have "{p. length p = Suc 0 \<and> sorted p \<and> (\<forall>x \<in> set p. s \<le> x) \<and> sum_list p = t}
          = (if s \<le> t then {[t]} else {})"
      by (auto simp: length_Suc_conv)
    with True show ?thesis by (simp add: find_partitions_one)
  next
    case False
    then have n: "0 < n" by simp
    let ?P = "\<lambda>t s. projr (find_partitions t n s)"
    have IH: "set (?P t' s') =
        {p. length p = n \<and> sorted p \<and> (\<forall>x \<in> set p. s' \<le> x) \<and> sum_list p = t'}" for t' s'
      using Suc.IH [OF n] .
    have "set (projr (find_partitions t (Suc n) s))
        = (\<Union>i \<in> {s ..< t div Suc n + 1}. (#) i ` set (?P (t - i) i))"
      by (simp add: find_partitions_step [OF n] del: upt_Suc)
    also have "\<dots> = {p. length p = Suc n \<and> sorted p \<and> (\<forall>x \<in> set p. s \<le> x) \<and> sum_list p = t}"
      (is "?L = ?R")
    proof (intro set_eqI iffI)
      fix p assume "p \<in> ?L"
      then obtain i q where i: "s \<le> i" "i \<le> t div Suc n" and q: "q \<in> set (?P (t - i) i)"
        and p: "p = i # q" by auto
      from i have "i \<le> t" using div_le_dividend [of t "Suc n"] by linarith
      with q i p show "p \<in> ?R"
        unfolding IH by auto
    next
      fix p assume "p \<in> ?R"
      then obtain i q where p: "p = i # q" and l: "length q = n" and so: "sorted (i # q)"
        and lo: "s \<le> i" and su: "i + sum_list q = t"
        by (cases p) auto
      from so have ge: "\<forall>x \<in> set q. i \<le> x" and sq: "sorted q" by auto
      from ge have "i * n \<le> sum_list q" using sum_list_lower [of q i] l by simp
      with su have "i * Suc n \<le> t" by simp
      then have "i \<le> t div Suc n"
        by (simp add: less_eq_div_iff_mult_less_eq)
      moreover have "q \<in> set (?P (t - i) i)"
        unfolding IH using l sq ge su by auto
      ultimately show "p \<in> ?L" using lo p by auto
    qed
    finally show ?thesis .
  qed
qed

lemma distinct_concat_map_Cons:
  "distinct is \<Longrightarrow> \<forall>i \<in> set is. distinct (f i)
    \<Longrightarrow> distinct (concat (map (\<lambda>i. map ((#) i) (f i)) is))"
  by (induction "is") (auto simp: distinct_map)

lemma find_partitions_distinct:
  "0 < n \<Longrightarrow> distinct (projr (find_partitions t n s))"
proof (induction n arbitrary: t s)
  case 0
  then show ?case by simp
next
  case (Suc n)
  show ?case
  proof (cases "n = 0")
    case True
    then show ?thesis by (simp add: find_partitions_one)
  next
    case False
    then have n: "0 < n" by simp
    show ?thesis
      unfolding find_partitions_step [OF n] sum.sel
      by (rule distinct_concat_map_Cons) (use Suc.IH [OF n] in auto)
  qed
qed

lemma sorted_lists_card:
  "card {p :: nat list. length p = k \<and> sorted p \<and> (\<forall>x \<in> set p. 1 \<le> x) \<and> sum_list p = n}
   = card {M :: nat multiset. size M = k \<and> sum_mset M = n \<and> 0 \<notin># M}"
proof (rule bij_betw_same_card [where f = mset])
  show "bij_betw mset
     {p :: nat list. length p = k \<and> sorted p \<and> (\<forall>x \<in> set p. 1 \<le> x) \<and> sum_list p = n}
     {M :: nat multiset. size M = k \<and> sum_mset M = n \<and> 0 \<notin># M}"
  proof (rule bij_betw_byWitness [where f' = sorted_list_of_multiset])
    show "\<forall>a\<in>{p. length p = k \<and> sorted p \<and> (\<forall>x\<in>set p. 1 \<le> x) \<and> sum_list p = n}.
       sorted_list_of_multiset (mset a) = a"
      by (auto simp: sorted_list_of_multiset_mset sorted_sort_id)
    show "\<forall>a'\<in>{M. size M = k \<and> \<Sum>\<^sub># M = n \<and> 0 \<notin># M}. mset (sorted_list_of_multiset a') = a'"
      by simp
    show "mset ` {p. length p = k \<and> sorted p \<and> (\<forall>x\<in>set p. 1 \<le> x) \<and> sum_list p = n}
      \<subseteq> {M. size M = k \<and> \<Sum>\<^sub># M = n \<and> 0 \<notin># M}"
      by (auto simp: sum_mset_sum_list) 
    show "sorted_list_of_multiset ` {M. size M = k \<and> \<Sum>\<^sub># M = n \<and> 0 \<notin># M}
      \<subseteq> {p. length p = k \<and> sorted p \<and> (\<forall>x\<in>set p. 1 \<le> x) \<and> sum_list p = n}"
    proof
      fix p assume "p \<in> sorted_list_of_multiset ` {M. size M = k \<and> \<Sum>\<^sub># M = n \<and> 0 \<notin># M}"
      then obtain M where M: "size M = k" "\<Sum>\<^sub># M = n" "0 \<notin># M" and p: "p = sorted_list_of_multiset M"
        by auto
      have m: "mset p = M" by (simp add: p)
      have "length p = k" using M(1) m by (metis size_mset)
      moreover have "sorted p" by (simp add: p)
      moreover have "\<forall>x\<in>set p. 1 \<le> x" using M(3) by (auto simp: p Suc_le_eq intro: gr0I)
      moreover have "sum_list p = n" using M(2) m by (metis sum_mset_sum_list)
      ultimately show "p \<in> {p. length p = k \<and> sorted p \<and> (\<forall>x\<in>set p. 1 \<le> x) \<and> sum_list p = n}"
        by simp
    qed
  qed
qed

text \<open>
  Claim C3. For a total, a number of parts and a least part that are all at least 1,
  \<open>find_partitions\<close> raises nothing and yields exactly the tuples with that many parts, each
  at least the least part, in non-decreasing order and summing to the total: each such
  tuple once, and nothing else. With least part 1 their number is the number of integer
  partitions of the total into that many positive parts (multisets of positive numbers of
  that size and sum).
\<close>

theorem find_partitions_exactly:
  assumes "1 \<le> total_cars" and "1 \<le> num_sets" and "1 \<le> start"
  shows "\<exists>ps. find_partitions total_cars num_sets start = Inr ps \<and> distinct ps \<and>
           set ps = {p. length p = num_sets \<and> (\<forall>x \<in> set p. start \<le> x) \<and> sorted p \<and>
                        sum_list p = total_cars} \<and>
           (start = 1 \<longrightarrow>
              length ps = card {M :: nat multiset. size M = num_sets \<and> sum_mset M = total_cars \<and>
                                  0 \<notin># M})"
proof -
  from assms have n: "0 < num_sets" by simp
  then obtain ps where ps: "find_partitions total_cars num_sets start = Inr ps"
    using find_partitions_total by blast
  have d: "distinct ps" using find_partitions_distinct [OF n, of total_cars start] ps by simp
  have s: "set ps = {p. length p = num_sets \<and> (\<forall>x \<in> set p. start \<le> x) \<and> sorted p \<and>
                        sum_list p = total_cars}"
    using find_partitions_set [OF n, of total_cars start] ps by auto
  have "length ps = card {M :: nat multiset. size M = num_sets \<and> sum_mset M = total_cars \<and> 0 \<notin># M}"
    if "start = 1"
  proof -
    have "length ps = card (set ps)" using d by (simp add: distinct_card)
    also have "set ps = {p. length p = num_sets \<and> sorted p \<and> (\<forall>x \<in> set p. 1 \<le> x) \<and>
                        sum_list p = total_cars}"
      unfolding s that by auto
    finally show ?thesis by (simp only: sorted_lists_card)
  qed
  with ps d s show ?thesis by blast
qed

theorem find_partitions_exactly_witness:
  "1 \<le> (6::nat) \<and> 1 \<le> (3::nat) \<and> 1 \<le> (1::nat) \<and>
   find_partitions 6 3 1 = Inr [[1, 1, 4], [1, 2, 3], [2, 2, 2]] \<and>
   {p. length p = 3 \<and> (\<forall>x \<in> set p. 1 \<le> x) \<and> sorted p \<and> sum_list p = (6::nat)}
     = {[1, 1, 4], [1, 2, 3], [2, 2, 2]} \<and>
   card {M :: nat multiset. size M = 3 \<and> sum_mset M = 6 \<and> 0 \<notin># M} = 3"
proof -
  have e: "find_partitions 6 3 1 = Inr [[1, 1, 4], [1, 2, 3], [2, 2, 2]]"
    by code_simp
  show ?thesis
    using find_partitions_exactly [of 6 3 1] unfolding e by auto
qed

section \<open>The orderings the group search explores\<close>

lemma mset_without_nth:
  "i < length xs \<Longrightarrow> add_mset (xs ! i) (mset (take i xs @ drop (Suc i) xs)) = mset xs"
proof -
  assume "i < length xs"
  then have "xs = take i xs @ xs ! i # drop (Suc i) xs"
    by (rule id_take_nth_drop)
  then have "mset xs = mset (take i xs @ xs ! i # drop (Suc i) xs)" by simp
  then show ?thesis by simp
qed

lemma set_permutations: "set (permutations xs) = {ys. mset ys = mset xs}"
proof (induction xs rule: permutations.induct)
  case (1 xs)
  show ?case
  proof (cases "xs = []")
    case True
    then show ?thesis by (simp add: permutations.simps)
  next
    case False
    let ?rest = "\<lambda>i. take i xs @ drop (Suc i) xs"
    have IH: "set (permutations (?rest i)) = {zs. mset zs = mset (?rest i)}"
      if "i < length xs" for i
      using "1" [OF False, of i] that by simp
    have "set (permutations xs)
        = (\<Union>i \<in> {0 ..< length xs}. (#) (xs ! i) ` set (permutations (?rest i)))"
      using False by (subst permutations.simps) (simp del: upt_Suc)
    also have "\<dots> = (\<Union>i \<in> {0 ..< length xs}. (#) (xs ! i) ` {zs. mset zs = mset (?rest i)})"
      using IH by simp
    also have "\<dots> = {ys. mset ys = mset xs}" (is "?L = ?R")
    proof (intro set_eqI iffI)
      fix ys assume "ys \<in> ?L"
      then obtain i zs where "i < length xs" "mset zs = mset (?rest i)" "ys = xs ! i # zs"
        by auto
      then show "ys \<in> ?R" using mset_without_nth [of i xs] by simp
    next
      fix ys assume "ys \<in> ?R"
      then have m: "mset ys = mset xs" by simp
      with False obtain y zs where ys: "ys = y # zs" by (cases ys) auto
      with m have "y \<in> set xs" by (metis list.set_intros(1) set_mset_mset)
      then obtain i where i: "i < length xs" "xs ! i = y" by (auto simp: in_set_conv_nth)
      from m ys have "add_mset y (mset zs) = add_mset y (mset (?rest i))"
        using mset_without_nth [OF i(1)] i(2) by simp
      then have "mset zs = mset (?rest i)" by simp
      with i ys show "ys \<in> ?L" by auto
    qed
    finally show ?thesis .
  qed
qed

lemma partition_length:
  assumes "is_partition n p"
  shows "1 \<le> length p" and "length p \<le> n"
proof -
  from assms show "1 \<le> length p" by (cases p) (auto simp: is_partition_def)
  from assms have "\<forall>x \<in> set p. 1 \<le> x" "sum_list p = n"
    by (auto simp: is_partition_def list_all_iff)
  then show "length p \<le> n" using sum_list_lower [of p 1] by simp
qed

lemma set_explored_orderings:
  assumes "set_iteration si"
  shows "set (explored_orderings si n) = {ordering. \<exists>p. is_partition n p \<and> mset ordering = mset p}"
    (is "?L = ?R")
proof -
  have si: "set (si xs) = set xs" for xs using assms by (simp add: set_iteration_def)
  have L: "?L = (\<Union>g \<in> {1 ..< n + 1}. \<Union>p \<in> set (projr (find_partitions n g 1)).
                    {ordering. mset ordering = mset p})"
    by (simp add: explored_orderings_def si set_permutations del: upt_Suc)
  show ?thesis
  proof (intro set_eqI iffI)
    fix ordering assume "ordering \<in> ?L"
    then obtain g p where g: "1 \<le> g" "g \<le> n" and p: "p \<in> set (projr (find_partitions n g 1))"
      and m: "mset ordering = mset p"
      unfolding L by auto
    from g p have "is_partition n p"
      using find_partitions_set [of g n 1]
      by (auto simp: is_partition_def list_all_iff)
    with m show "ordering \<in> ?R" by auto
  next
    fix ordering assume "ordering \<in> ?R"
    then obtain p where p: "is_partition n p" and m: "mset ordering = mset p" by auto
    from p have g: "1 \<le> length p" "length p \<le> n" by (rule partition_length)+
    then have "p \<in> set (projr (find_partitions n (length p) 1))"
      using find_partitions_set [of "length p" n 1] p
      by (auto simp: is_partition_def list_all_iff)
    with g m show "ordering \<in> ?L" unfolding L by auto
  qed
qed

section \<open>The group search\<close>

lemma price_ge_mono: "price_ge p b \<Longrightarrow> p \<le> q \<Longrightarrow> price_ge q b"
  by (cases b) auto

lemma price_ge_not_lt: "price_ge p b \<Longrightarrow> \<not> price_lt p b"
  by (cases b) auto

lemma greedy_assignment_nonneg:
  "greedy_assignment len pool perm = Some (used, price)
    \<Longrightarrow> \<forall>l \<in> set pool. 0 \<le> price_in_cents l \<Longrightarrow> 0 \<le> price"
proof (induction perm arbitrary: pool used price)
  case Nil
  then show ?case by simp
next
  case (Cons g gs)
  from Cons.prems(1) obtain l u p where l: "find (\<lambda>l. isCompatible l len (int g)) pool = Some l"
    and r: "greedy_assignment len (remove1 l pool) gs = Some (u, p)"
    and e: "price = price_in_cents l + p"
    by (auto split: option.splits)
  from l have "l \<in> set pool" by (auto simp: find_Some_iff)
  with Cons.prems(2) have "0 \<le> price_in_cents l" by simp
  moreover have "0 \<le> p"
    using Cons.IH [OF r] Cons.prems(2) by (meson notin_set_remove1)
  ultimately show ?case using e by simp
qed

lemma place_groups_infeasible:
  "greedy_assignment len pool perm = None
    \<Longrightarrow> \<not> fst (place_groups len b perm pool used cur)"
proof (induction perm arbitrary: pool used cur)
  case Nil
  then show ?case by simp
next
  case (Cons g gs)
  then show ?case
    by (auto simp: spot_find split: option.splits)
qed

lemma place_groups_feasible:
  assumes "greedy_assignment len pool perm = Some (u, p)"
    and "\<forall>l \<in> set pool. 0 \<le> price_in_cents l"
  shows "place_groups len b perm pool used cur = (True, used @ u, cur + p) \<or>
         (\<not> fst (place_groups len b perm pool used cur) \<and> price_ge (cur + p) b)"
  using assms
proof (induction perm arbitrary: pool used cur u p)
  case Nil
  then show ?case by simp
next
  case (Cons g gs)
  from Cons.prems(1) obtain l u' p' where l: "find (\<lambda>l. isCompatible l len (int g)) pool = Some l"
    and r: "greedy_assignment len (remove1 l pool) gs = Some (u', p')"
    and e: "u = l # u'" "p = price_in_cents l + p'"
    by (auto split: option.splits)
  have nn: "\<forall>l \<in> set (remove1 l pool). 0 \<le> price_in_cents l"
    using Cons.prems(2) by (meson notin_set_remove1)
  have "0 \<le> p" using greedy_assignment_nonneg [OF Cons.prems] .
  show ?case
  proof (cases "price_ge cur b")
    case True
    then have "price_ge (cur + p) b"
      using \<open>0 \<le> p\<close> price_ge_mono [of cur b "cur + p"] by simp
    with True show ?thesis by simp
  next
    case False
    then have "place_groups len b (g # gs) pool used cur
        = place_groups len b gs (remove1 l pool) (used @ [l]) (cur + price_in_cents l)"
      using l by (simp add: spot_find)
    then show ?thesis
      using Cons.IH [OF r nn, of "used @ [l]" "cur + price_in_cents l"] e
      by (simp add: add.assoc)
  qed
qed

lemma try_ordering_greedy:
  assumes "\<forall>l \<in> set pool. 0 \<le> price_in_cents l"
  shows "try_ordering len pool perm st =
     (case greedy_assignment len pool perm of
        None \<Rightarrow> st
      | Some (used, price) \<Rightarrow>
          if price_lt price (fst st)
          then (Finite price,
                Some \<lparr>split_of_cars = perm, listings_used = used,
                      total_price_in_cents = price\<rparr>)
          else st)"
proof (cases "greedy_assignment len pool perm")
  case None
  then have "\<not> fst (place_groups len (fst st) perm pool [] 0)"
    by (rule place_groups_infeasible)
  then obtain a c where "place_groups len (fst st) perm pool [] 0 = (False, a, c)"
    by (cases "place_groups len (fst st) perm pool [] 0") auto
  with None show ?thesis
    by (simp add: try_ordering_def)
next
  case (Some r)
  obtain u p where r: "r = (u, p)" by (cases r)
  from Some r assms
  consider "place_groups len (fst st) perm pool [] 0 = (True, u, p)"
    | "\<not> fst (place_groups len (fst st) perm pool [] 0)" "price_ge p (fst st)"
    using place_groups_feasible [of len pool perm u p "fst st" "[]" 0] by auto
  then show ?thesis
  proof cases
    case 1
    with Some r show ?thesis by (simp add: try_ordering_def)
  next
    case 2
    then have "\<not> price_lt p (fst st)" by (simp add: price_ge_not_lt)
    moreover from 2 obtain a c where "place_groups len (fst st) perm pool [] 0 = (False, a, c)"
      by (cases "place_groups len (fst st) perm pool [] 0") auto
    ultimately show ?thesis using Some r
      by (simp add: try_ordering_def)
  qed
qed

lemma search_state_step:
  assumes nn: "\<forall>l \<in> set pool. 0 \<le> price_in_cents l"
    and st: "search_state len pool seen st"
  shows "search_state len pool (seen @ [perm]) (try_ordering len pool perm st)"
proof (cases "greedy_assignment len pool perm")
  case None
  then have "try_ordering len pool perm st = st"
    by (simp add: try_ordering_greedy [OF nn])
  with st None show ?thesis
    by (cases "snd st") (simp_all add: search_state_def)
next
  case (Some r)
  obtain u p where r: "r = (u, p)" by (cases r)
  note g = Some [unfolded r]
  have T: "try_ordering len pool perm st =
     (if price_lt p (fst st)
      then (Finite p, Some \<lparr>split_of_cars = perm, listings_used = u, total_price_in_cents = p\<rparr>)
      else st)"
    by (simp add: try_ordering_greedy [OF nn] g)
  show ?thesis
  proof (cases "snd st")
    case None
    with st have "fst st = Infinity"
      and "\<forall>x \<in> set seen. greedy_assignment len pool x = None"
      by (simp_all add: search_state_def list_all_iff)
    then show ?thesis
      by (simp add: T search_state_def g list_all_iff)
  next
    case (Some arr)
    with st have f: "fst st = Finite (total_price_in_cents arr)"
      and m: "split_of_cars arr \<in> set seen"
      and e: "greedy_assignment len pool (split_of_cars arr) =
            Some (listings_used arr, total_price_in_cents arr)"
      and le: "\<forall>x \<in> set seen. not_above (total_price_in_cents arr) (greedy_assignment len pool x)"
      by (simp_all add: search_state_def list_all_iff)
    show ?thesis
    proof (cases "p < total_price_in_cents arr")
      case True
      have "not_above p (greedy_assignment len pool x)" if "x \<in> set seen" for x
        using le [rule_format, OF that] True
        by (cases "greedy_assignment len pool x") auto
      then have "\<forall>x \<in> set seen. not_above p (greedy_assignment len pool x)" by blast
      with True f show ?thesis
        by (simp add: T search_state_def g list_all_iff)
    next
      case False
      with f have "try_ordering len pool perm st = st" by (simp add: T)
      with False Some f m e le show ?thesis
        by (simp add: search_state_def g list_all_iff)
    qed
  qed
qed

lemma search_state_fold:
  assumes nn: "\<forall>l \<in> set pool. 0 \<le> price_in_cents l"
  shows "search_state len pool seen st
    \<Longrightarrow> search_state len pool (seen @ perms) (fold (try_ordering len pool) perms st)"
proof (induction perms arbitrary: seen st)
  case Nil
  then show ?case by simp
next
  case (Cons x xs)
  from search_state_step [OF nn Cons.prems, of x]
  have "search_state len pool ((seen @ [x]) @ xs)
          (fold (try_ordering len pool) xs (try_ordering len pool x st))"
    by (rule Cons.IH)
  then show ?case by simp
qed

lemma search_state_final:
  assumes "\<forall>l \<in> set pool. 0 \<le> price_in_cents l"
  shows "search_state len pool (explored_orderings si (nat n))
           (fold (try_ordering len pool) (explored_orderings si (nat n)) (Infinity, None))"
proof -
  have "search_state len pool [] (Infinity, None)"
    by (simp add: search_state_def)
  from search_state_fold [OF assms this] show ?thesis by simp
qed

text \<open>
  Claim C2. For a pool in ascending price order with no negative price, at least one
  vehicle and no price to beat, \<open>find_cheapest_for_location\<close> raises nothing, and it returns
  none exactly when no ordering of any partition of \<open>numCars\<close> can be served greedily.
  Otherwise the arrangement it returns is the greedy assignment of one such ordering, and
  its total price is at most the total price of the greedy assignment of every ordering of
  every partition of \<open>numCars\<close> that can be served.
\<close>

theorem group_search_cheapest:
  assumes si: "set_iteration set_iter"
    and n: "1 \<le> numCars"
    and sorted: "sorted (map price_in_cents pool)"
    and nn: "\<forall>l \<in> set pool. 0 \<le> price_in_cents l"
  shows "\<exists>r. find_cheapest_for_location set_iter numCars vehicleLength pool Infinity = Inr r \<and>
     (r = None \<longleftrightarrow>
        (\<forall>p perm. is_partition (nat numCars) p \<and> mset perm = mset p
           \<longrightarrow> greedy_assignment vehicleLength pool perm = None)) \<and>
     (\<forall>arr. r = Some arr \<longrightarrow>
        (\<exists>p. is_partition (nat numCars) p \<and> mset (split_of_cars arr) = mset p) \<and>
        greedy_assignment vehicleLength pool (split_of_cars arr)
          = Some (listings_used arr, total_price_in_cents arr) \<and>
        (\<forall>p perm used price.
           is_partition (nat numCars) p \<and> mset perm = mset p \<and>
           greedy_assignment vehicleLength pool perm = Some (used, price)
           \<longrightarrow> total_price_in_cents arr \<le> price))"
proof -
  let ?os = "explored_orderings set_iter (nat numCars)"
  let ?st = "fold (try_ordering vehicleLength pool) ?os (Infinity, None)"
  let ?ordered = "\<lambda>perm. \<exists>p. is_partition (nat numCars) p \<and> mset perm = mset p"
  have r: "find_cheapest_for_location set_iter numCars vehicleLength pool Infinity = Inr (snd ?st)"
    by (rule find_cheapest_for_location_fold)
  have inv: "search_state vehicleLength pool ?os ?st"
    using nn by (rule search_state_final)
  have os: "perm \<in> set ?os \<longleftrightarrow> ?ordered perm" for perm
    by (simp add: set_explored_orderings [OF si])
  have a: "snd ?st = None \<longleftrightarrow>
        (\<forall>p perm. is_partition (nat numCars) p \<and> mset perm = mset p
           \<longrightarrow> greedy_assignment vehicleLength pool perm = None)"
  proof (cases "snd ?st")
    case None
    with inv have all: "\<forall>perm \<in> set ?os. greedy_assignment vehicleLength pool perm = None"
      by (simp add: search_state_def list_all_iff)
    have "greedy_assignment vehicleLength pool perm = None"
      if "is_partition (nat numCars) p \<and> mset perm = mset p" for p perm
    proof -
      from that have "?ordered perm" by (rule exI)
      then have "perm \<in> set ?os" by (simp only: os)
      with all show ?thesis by (rule bspec)
    qed
    then have "\<forall>p perm. is_partition (nat numCars) p \<and> mset perm = mset p
           \<longrightarrow> greedy_assignment vehicleLength pool perm = None"
      by blast
    with None show ?thesis by fast
  next
    case (Some arr)
    with inv have m: "split_of_cars arr \<in> set ?os"
      and g: "greedy_assignment vehicleLength pool (split_of_cars arr) \<noteq> None"
      by (simp_all add: search_state_def)
    from m have "?ordered (split_of_cars arr)" by (simp only: os)
    then obtain p where p: "is_partition (nat numCars) p \<and> mset (split_of_cars arr) = mset p" ..
    have "\<not> (\<forall>p perm. is_partition (nat numCars) p \<and> mset perm = mset p
           \<longrightarrow> greedy_assignment vehicleLength pool perm = None)"
    proof
      assume "\<forall>p perm. is_partition (nat numCars) p \<and> mset perm = mset p
           \<longrightarrow> greedy_assignment vehicleLength pool perm = None"
      from this [rule_format, OF p] g show False by simp
    qed
    with Some show ?thesis by simp
  qed
  have b: "?ordered (split_of_cars arr) \<and>
        greedy_assignment vehicleLength pool (split_of_cars arr)
          = Some (listings_used arr, total_price_in_cents arr) \<and>
        (\<forall>p perm used price.
           is_partition (nat numCars) p \<and> mset perm = mset p \<and>
           greedy_assignment vehicleLength pool perm = Some (used, price)
           \<longrightarrow> total_price_in_cents arr \<le> price)"
    if "snd ?st = Some arr" for arr
  proof -
    from inv that have 1: "split_of_cars arr \<in> set ?os"
      and 2: "greedy_assignment vehicleLength pool (split_of_cars arr)
          = Some (listings_used arr, total_price_in_cents arr)"
      and 3: "\<forall>perm \<in> set ?os.
                 not_above (total_price_in_cents arr) (greedy_assignment vehicleLength pool perm)"
      by (simp_all add: search_state_def list_all_iff)
    have "total_price_in_cents arr \<le> price"
      if h: "is_partition (nat numCars) p \<and> mset perm = mset p \<and>
         greedy_assignment vehicleLength pool perm = Some (used, price)"
      for p perm used price
    proof -
      from h have "is_partition (nat numCars) p \<and> mset perm = mset p" by simp
      then have "?ordered perm" by (rule exI)
      then have "perm \<in> set ?os" by (simp only: os)
      with 3 have "not_above (total_price_in_cents arr) (greedy_assignment vehicleLength pool perm)"
        by (rule bspec)
      with h show ?thesis by simp
    qed
    then have 4: "\<forall>p perm used price.
           is_partition (nat numCars) p \<and> mset perm = mset p \<and>
           greedy_assignment vehicleLength pool perm = Some (used, price)
           \<longrightarrow> total_price_in_cents arr \<le> price"
      by (intro allI impI)
    from 1 have "?ordered (split_of_cars arr)" by (simp only: os)
    with 2 4 show ?thesis by (intro conjI)
  qed
  have c: "\<forall>arr. snd ?st = Some arr \<longrightarrow>
        ?ordered (split_of_cars arr) \<and>
        greedy_assignment vehicleLength pool (split_of_cars arr)
          = Some (listings_used arr, total_price_in_cents arr) \<and>
        (\<forall>p perm used price.
           is_partition (nat numCars) p \<and> mset perm = mset p \<and>
           greedy_assignment vehicleLength pool perm = Some (used, price)
           \<longrightarrow> total_price_in_cents arr \<le> price)"
  proof (intro allI impI)
    fix arr assume "snd ?st = Some arr"
    then show "?ordered (split_of_cars arr) \<and>
        greedy_assignment vehicleLength pool (split_of_cars arr)
          = Some (listings_used arr, total_price_in_cents arr) \<and>
        (\<forall>p perm used price.
           is_partition (nat numCars) p \<and> mset perm = mset p \<and>
           greedy_assignment vehicleLength pool perm = Some (used, price)
           \<longrightarrow> total_price_in_cents arr \<le> price)"
      by (rule b)
  qed
  show ?thesis
    by (rule exI [of _ "snd ?st"]) (intro conjI r a c)
qed

theorem group_search_cheapest_witness:
  "find_cheapest_for_location remdups 2 10
     [\<lparr>listing_id = (1::nat), location_id = ''L1'', width = 10, listing_length = 10,
        price_in_cents = 300\<rparr>,
      \<lparr>listing_id = 2, location_id = ''L1'', width = 10, listing_length = 10,
        price_in_cents = 300\<rparr>,
      \<lparr>listing_id = 3, location_id = ''L1'', width = 20, listing_length = 20,
        price_in_cents = 700\<rparr>] Infinity
   = Inr (Some \<lparr>split_of_cars = [1, 1],
                listings_used =
                  [\<lparr>listing_id = 1, location_id = ''L1'', width = 10, listing_length = 10,
                     price_in_cents = 300\<rparr>,
                   \<lparr>listing_id = 2, location_id = ''L1'', width = 10, listing_length = 10,
                     price_in_cents = 300\<rparr>],
                total_price_in_cents = 600\<rparr>) \<and>
   is_partition 2 [2] \<and>
   greedy_assignment 10
     [\<lparr>listing_id = (1::nat), location_id = ''L1'', width = 10, listing_length = 10,
        price_in_cents = 300\<rparr>,
      \<lparr>listing_id = 2, location_id = ''L1'', width = 10, listing_length = 10,
        price_in_cents = 300\<rparr>,
      \<lparr>listing_id = 3, location_id = ''L1'', width = 20, listing_length = 20,
        price_in_cents = 700\<rparr>] [2]
   = Some ([\<lparr>listing_id = 3, location_id = ''L1'', width = 20, listing_length = 20,
              price_in_cents = 700\<rparr>], 700)"
proof -
  let ?pool = "[\<lparr>listing_id = (1::nat), location_id = ''L1'', width = 10, listing_length = 10,
        price_in_cents = 300\<rparr>,
      \<lparr>listing_id = 2, location_id = ''L1'', width = 10, listing_length = 10,
        price_in_cents = 300\<rparr>,
      \<lparr>listing_id = 3, location_id = ''L1'', width = 20, listing_length = 20,
        price_in_cents = 700\<rparr>]"
  have h1: "set_iteration remdups" by (simp add: set_iteration_def)
  have h2: "1 \<le> (2::int)" by simp
  have h3: "sorted (map price_in_cents ?pool)" by simp
  have h4: "\<forall>l \<in> set ?pool. 0 \<le> price_in_cents l" by simp
  have e: "find_cheapest_for_location remdups 2 10 ?pool Infinity
   = Inr (Some \<lparr>split_of_cars = [1, 1],
                listings_used =
                  [\<lparr>listing_id = 1, location_id = ''L1'', width = 10, listing_length = 10,
                     price_in_cents = 300\<rparr>,
                   \<lparr>listing_id = 2, location_id = ''L1'', width = 10, listing_length = 10,
                     price_in_cents = 300\<rparr>],
                total_price_in_cents = 600\<rparr>)"
    by code_simp
  have g: "greedy_assignment 10 ?pool [2]
     = Some ([\<lparr>listing_id = 3, location_id = ''L1'', width = 20, listing_length = 20,
              price_in_cents = 700\<rparr>], 700)"
    by code_simp
  have p: "is_partition 2 [2]" by code_simp
  from group_search_cheapest [OF h1 h2 h3 h4, of 10] e g p show ?thesis by simp
qed

section \<open>Listings consumed at a location\<close>

lemma place_groups_used:
  "place_groups len b perm temp used cur = (ok, used', cur')
    \<Longrightarrow> \<exists>xs. used' = used @ xs \<and> mset xs \<subseteq># mset temp"
proof (induction perm arbitrary: temp used cur)
  case Nil
  then show ?case by simp
next
  case (Cons g gs)
  show ?case
  proof (cases "price_ge cur b")
    case True
    with Cons.prems show ?thesis by simp
  next
    case False
    show ?thesis
    proof (cases "find_cheapest_spot_optimized (int g) len temp")
      case None
      with False Cons.prems show ?thesis by simp
    next
      case (Some spot)
      then have m: "spot \<in> set temp" by (auto simp: spot_find find_Some_iff)
      from Some False Cons.prems
      have "place_groups len b gs (remove1 spot temp) (used @ [spot]) (cur + price_in_cents spot)
              = (ok, used', cur')" by simp
      from Cons.IH [OF this] obtain xs where xs: "used' = (used @ [spot]) @ xs"
        "mset xs \<subseteq># mset (remove1 spot temp)" by blast
      from xs(2) m have "mset (spot # xs) \<subseteq># mset temp"
        by (simp add: insert_subset_eq_iff)
      with xs(1) show ?thesis by (intro exI [of _ "spot # xs"]) simp
    qed
  qed
qed

lemma try_ordering_used:
  assumes "pred_option (\<lambda>arr. mset (listings_used arr) \<subseteq># mset pool) (snd st)"
  shows "pred_option (\<lambda>arr. mset (listings_used arr) \<subseteq># mset pool)
           (snd (try_ordering len pool perm st))"
proof -
  obtain ok used cur where pg: "place_groups len (fst st) perm pool [] 0 = (ok, used, cur)"
    by (cases "place_groups len (fst st) perm pool [] 0") 
  from place_groups_used [OF pg] have "mset used \<subseteq># mset pool" by simp
  with assms pg show ?thesis
    by (simp add: try_ordering_def)
qed

lemma fold_try_ordering_used:
  "pred_option (\<lambda>arr. mset (listings_used arr) \<subseteq># mset pool) (snd st)
    \<Longrightarrow> pred_option (\<lambda>arr. mset (listings_used arr) \<subseteq># mset pool)
           (snd (fold (try_ordering len pool) perms st))"
  by (induction perms arbitrary: st) (simp_all add: try_ordering_used)

lemma find_cheapest_for_location_used:
  assumes "find_cheapest_for_location si n len pool b = Inr (Some arr)"
  shows "mset (listings_used arr) \<subseteq># mset pool"
proof -
  have "pred_option (\<lambda>arr. mset (listings_used arr) \<subseteq># mset pool)
           (snd (fold (try_ordering len pool) (explored_orderings si (nat n)) (b, None)))"
    by (rule fold_try_ordering_used) simp
  with assms show ?thesis
    by (simp add: find_cheapest_for_location_fold)
qed

lemma remove_present:
  "fold (\<lambda>spot av. if spot \<in> set av then remove1 spot av else av) xs pool
     = fold remove1 xs pool"
  by (induction xs arbitrary: pool) (simp_all add: remove1_idem)

lemma mset_fold_remove1: "mset (fold remove1 xs pool) = mset pool - mset xs"
  by (induction xs arbitrary: pool) simp_all

lemma place_vehicle_groups_placed:
  "place_vehicle_groups si vs pool used tot = Inr (Some (used', tot'))
    \<Longrightarrow> \<exists>arrs. all_placed si vs pool arrs \<and>
          used' = used @ concat (map listings_used arrs) \<and>
          tot' = tot + sum_list (map total_price_in_cents arrs)"
proof (induction vs arbitrary: pool used tot)
  case Nil
  then show ?case by (intro exI [of _ "[]"]) simp
next
  case (Cons v vs)
  from Cons.prems obtain arr where
    arr: "find_cheapest_for_location si (quantity v) (vehicle_length v) pool Infinity
            = Inr (Some arr)"
    and rest: "place_vehicle_groups si vs (fold remove1 (listings_used arr) pool)
            (used @ listings_used arr) (tot + total_price_in_cents arr) = Inr (Some (used', tot'))"
    by (auto simp: remove_present split: sum.splits option.splits)
  from Cons.IH [OF rest] obtain arrs where
    "all_placed si vs (fold remove1 (listings_used arr) pool) arrs"
    "used' = (used @ listings_used arr) @ concat (map listings_used arrs)"
    "tot' = tot + total_price_in_cents arr + sum_list (map total_price_in_cents arrs)"
    by blast
  with arr show ?case by (intro exI [of _ "arr # arrs"]) simp
qed

lemma all_placed_used:
  "all_placed si vs pool arrs \<Longrightarrow> mset (concat (map listings_used arrs)) \<subseteq># mset pool"
proof (induction si vs pool arrs rule: all_placed.induct)
  case (2 si v vs pool arr arrs)
  then have a: "mset (listings_used arr) \<subseteq># mset pool"
    and r: "mset (concat (map listings_used arrs)) \<subseteq># mset pool - mset (listings_used arr)"
    by (auto simp: find_cheapest_for_location_used mset_fold_remove1)
  from r have "mset (listings_used arr) + mset (concat (map listings_used arrs))
      \<subseteq># mset (listings_used arr) + (mset pool - mset (listings_used arr))"
    by simp
  also have "\<dots> = mset pool" using a by simp
  finally show ?case by simp
qed simp_all

lemma all_placed_length: "all_placed si vs pool arrs \<Longrightarrow> length arrs = length vs"
  by (induction si vs pool arrs rule: all_placed.induct) simp_all

lemma solve_locations_eq:
  "solve_locations si req groups acc = Inr (acc @ List.map_filter (solve_location si req) groups)"
proof (induction groups arbitrary: acc)
  case Nil
  then show ?case by (simp add: List.map_filter_simps)
next
  case (Cons g groups)
  obtain loc ls where g: "g = (loc, ls)" by (cases g)
  obtain r where r: "place_vehicle_groups si (sorted_request req) ls [] 0 = Inr r"
    using place_vehicle_groups_total by blast
  show ?case
  proof (cases r)
    case None
    with r g Cons show ?thesis
      by (simp add: List.map_filter_simps solve_location_def)
  next
    case (Some x)
    obtain used price where "x = (used, price)" by (cases x)
    with Some r g Cons show ?thesis
      by (simp add: List.map_filter_simps solve_location_def)
  qed
qed

lemma find_best_solution_with_grouping_eq:
  "find_best_solution_with_grouping si req all_listings =
     Inr (sort_key res_total_price_in_cents
            (List.map_filter (solve_location si req) (group_listings_by_location all_listings)))"
  by (simp add: find_best_solution_with_grouping_def solve_locations_eq)

lemma solve_location_Some:
  assumes "solve_location si req g = Some r"
  shows "res_location_id r = fst g"
    and "\<exists>arrs. all_placed si (sorted_request req) (snd g) arrs \<and>
           listing_ids r = map listing_id (concat (map listings_used arrs)) \<and>
           res_total_price_in_cents r = sum_list (map total_price_in_cents arrs)"
proof -
  from assms obtain used price where
    p: "place_vehicle_groups si (sorted_request req) (snd g) [] 0 = Inr (Some (used, price))"
    and r: "r = \<lparr>res_location_id = fst g, res_total_price_in_cents = price,
                listing_ids = map listing_id used\<rparr>"
    by (auto simp: solve_location_def split: sum.splits option.splits)
  from r show "res_location_id r = fst g" by simp
  from place_vehicle_groups_placed [OF p] r
  show "\<exists>arrs. all_placed si (sorted_request req) (snd g) arrs \<and>
           listing_ids r = map listing_id (concat (map listings_used arrs)) \<and>
           res_total_price_in_cents r = sum_list (map total_price_in_cents arrs)"
    by auto
qed

lemma set_map_filter_iff:
  "r \<in> set (List.map_filter f xs) \<longleftrightarrow> (\<exists>x \<in> set xs. f x = Some r)"
  by (induction xs) (auto split: option.splits)

lemma results_from_groups:
  assumes "find_best_solution_with_grouping si req all_listings = Inr out" and "r \<in> set out"
  shows "\<exists>g \<in> set (group_listings_by_location all_listings). solve_location si req g = Some r"
  using assms
  by (auto simp: find_best_solution_with_grouping_eq set_map_filter_iff)

lemma distinct_subseteq:
  assumes "mset xs \<subseteq># mset ys" and "distinct ys"
  shows "distinct xs"
proof -
  have "count (mset xs) a = (if a \<in> set xs then 1 else 0)" for a
  proof -
    have "count (mset xs) a \<le> count (mset ys) a"
      using assms(1) by (rule mset_subset_eq_count)
    also have "\<dots> \<le> 1" using assms(2) by (simp add: distinct_count_atmost_1)
    finally have le: "count (mset xs) a \<le> 1" .
    show ?thesis
    proof (cases "a \<in> set xs")
      case True
      then have "0 < count (mset xs) a" by simp
      with le have "count (mset xs) a = 1" by linarith
      with True show ?thesis by simp
    next
      case False
      then show ?thesis by (simp add: count_eq_zero_iff)
    qed
  qed
  then show ?thesis by (simp add: distinct_count_atmost_1)
qed

lemma map_filter_sorted_wrt:
  assumes "sorted_wrt (\<lambda>a b. R (k a) (k b)) xs"
    and "\<forall>x r. f x = Some r \<longrightarrow> k' r = k x"
  shows "sorted_wrt (\<lambda>r1 r2. R (k' r1) (k' r2)) (List.map_filter f xs)"
  using assms
proof (induction xs)
  case Nil
  then show ?case by simp
next
  case (Cons x xs)
  then have IH: "sorted_wrt (\<lambda>r1 r2. R (k' r1) (k' r2)) (List.map_filter f xs)" by simp
  show ?case
  proof (cases "f x")
    case None
    with IH show ?thesis by simp
  next
    case (Some r)
    have "R (k' r) (k' r2)" if "r2 \<in> set (List.map_filter f xs)" for r2
    proof -
      from that obtain y where y: "y \<in> set xs" "f y = Some r2"
        by (auto simp: set_map_filter_iff)
      with Cons.prems(1) have "R (k x) (k y)" by simp
      with Cons.prems(2) Some y(2) show ?thesis by simp
    qed
    with IH Some show ?thesis by simp
  qed
qed

lemma group_keys_sorted_wrt:
  "sorted_wrt (\<lambda>a b. first_index (fst a) (map location_id all_listings)
                      < first_index (fst b) (map location_id all_listings))
     (group_listings_by_location all_listings)"
proof -
  have "sorted_wrt (\<lambda>a b. first_index a (map location_id all_listings)
                      < first_index b (map location_id all_listings))
          (map fst (group_listings_by_location all_listings))"
    by (simp add: group_listings_by_location_eq comp_def first_occurrences_sorted_wrt)
  then show ?thesis by (simp add: sorted_wrt_map)
qed

lemma group_listings:
  assumes "g \<in> set (group_listings_by_location all_listings)"
  shows "mset (snd g) \<subseteq># mset all_listings"
    and "\<forall>l \<in> set (snd g). location_id l = fst g"
  using assms by (auto simp: group_listings_by_location_eq)

lemma result_listings:
  assumes "find_best_solution_with_grouping si req all_listings = Inr out" and "r \<in> set out"
  shows "\<exists>used. listing_ids r = map listing_id used \<and> mset used \<subseteq># mset all_listings \<and>
           (\<forall>l \<in> set used. location_id l = res_location_id r)"
proof -
  from results_from_groups [OF assms] obtain g where
    g: "g \<in> set (group_listings_by_location all_listings)" and s: "solve_location si req g = Some r"
    by blast
  from solve_location_Some [OF s] obtain arrs where
    loc: "res_location_id r = fst g"
    and pl: "all_placed si (sorted_request req) (snd g) arrs"
    and ids: "listing_ids r = map listing_id (concat (map listings_used arrs))"
    by blast
  let ?used = "concat (map listings_used arrs)"
  have sub: "mset ?used \<subseteq># mset (snd g)" using pl by (rule all_placed_used)
  then have "mset ?used \<subseteq># mset all_listings"
    using group_listings(1) [OF g] by (rule subset_mset.order_trans)
  moreover have "\<forall>l \<in> set ?used. location_id l = res_location_id r"
  proof
    fix l assume "l \<in> set ?used"
    then have "l \<in> set (snd g)" using sub by (meson mset_subset_eqD set_mset_mset in_multiset_in_set)
    with group_listings(2) [OF g] loc show "location_id l = res_location_id r" by simp
  qed
  ultimately show ?thesis using ids by blast
qed

text \<open>
  Claim C6. The solver raises nothing. Its results are in ascending order of total price;
  among the results of one total price, a result comes before another only if its location
  first occurs earlier in the catalog; and every result belongs to a location of the
  catalog at which every vehicle group of the request was placed, its listing ids and its
  total price being those of the arrangements of the groups.
\<close>

theorem results_ranked_and_feasible:
  "\<exists>out. find_best_solution_with_grouping set_iter vehicle_request all_listings = Inr out \<and>
     sorted (map res_total_price_in_cents out) \<and>
     (\<forall>price.
        sorted_wrt (\<lambda>r1 r2. first_index (res_location_id r1) (map location_id all_listings)
                           < first_index (res_location_id r2) (map location_id all_listings))
          (filter (\<lambda>r. res_total_price_in_cents r = price) out)) \<and>
     (\<forall>r \<in> set out.
        \<exists>ls arrs. (res_location_id r, ls) \<in> set (group_listings_by_location all_listings) \<and>
          all_placed set_iter (sorted_request vehicle_request) ls arrs \<and>
          length arrs = length vehicle_request \<and>
          listing_ids r = map listing_id (concat (map listings_used arrs)) \<and>
          res_total_price_in_cents r = sum_list (map total_price_in_cents arrs))"
proof -
  let ?groups = "group_listings_by_location all_listings"
  let ?rs = "List.map_filter (solve_location set_iter vehicle_request) ?groups"
  let ?out = "sort_key res_total_price_in_cents ?rs"
  let ?R = "\<lambda>r1 r2. first_index (res_location_id r1) (map location_id all_listings)
                           < first_index (res_location_id r2) (map location_id all_listings)"
  have out: "find_best_solution_with_grouping set_iter vehicle_request all_listings = Inr ?out"
    by (rule find_best_solution_with_grouping_eq)
  have 1: "sorted (map res_total_price_in_cents ?out)" by (rule sorted_sort_key)
  have rs: "sorted_wrt ?R ?rs"
    by (rule map_filter_sorted_wrt [where k = fst, OF group_keys_sorted_wrt])
       (auto dest: solve_location_Some(1))
  have 2: "\<forall>price. sorted_wrt ?R (filter (\<lambda>r. res_total_price_in_cents r = price) ?out)"
    using rs by (simp add: sort_key_stable sorted_wrt_filter)
  have 3: "\<forall>r \<in> set ?out.
        \<exists>ls arrs. (res_location_id r, ls) \<in> set ?groups \<and>
          all_placed set_iter (sorted_request vehicle_request) ls arrs \<and>
          length arrs = length vehicle_request \<and>
          listing_ids r = map listing_id (concat (map listings_used arrs)) \<and>
          res_total_price_in_cents r = sum_list (map total_price_in_cents arrs)"
  proof
    fix r assume "r \<in> set ?out"
    with results_from_groups [OF out] obtain g where
      g: "g \<in> set ?groups" and s: "solve_location set_iter vehicle_request g = Some r"
      by blast
    from solve_location_Some [OF s] obtain arrs where
      loc: "res_location_id r = fst g"
      and pl: "all_placed set_iter (sorted_request vehicle_request) (snd g) arrs"
      and ids: "listing_ids r = map listing_id (concat (map listings_used arrs))"
      and tot: "res_total_price_in_cents r = sum_list (map total_price_in_cents arrs)"
      by blast
    have "length arrs = length vehicle_request"
      using all_placed_length [OF pl] by (simp add: sorted_request_def)
    moreover from g loc have "(res_location_id r, snd g) \<in> set ?groups" by simp
    ultimately show "\<exists>ls arrs. (res_location_id r, ls) \<in> set ?groups \<and>
          all_placed set_iter (sorted_request vehicle_request) ls arrs \<and>
          length arrs = length vehicle_request \<and>
          listing_ids r = map listing_id (concat (map listings_used arrs)) \<and>
          res_total_price_in_cents r = sum_list (map total_price_in_cents arrs)"
      using pl ids tot by blast
  qed
  show ?thesis
    by (rule exI [of _ ?out]) (intro conjI out 1 2 3)
qed

theorem results_ranked_and_feasible_witness:
  "find_best_solution_with_grouping remdups [\<lparr>vehicle_length = 10, quantity = 1\<rparr>]
     [\<lparr>listing_id = (1::nat), location_id = ''L1'', width = 10, listing_length = 10,
        price_in_cents = 600\<rparr>,
      \<lparr>listing_id = 2, location_id = ''L2'', width = 10, listing_length = 10,
        price_in_cents = 550\<rparr>,
      \<lparr>listing_id = 3, location_id = ''L3'', width = 10, listing_length = 10,
        price_in_cents = 600\<rparr>,
      \<lparr>listing_id = 4, location_id = ''L4'', width = 5, listing_length = 5,
        price_in_cents = 100\<rparr>]
   = Inr [\<lparr>res_location_id = ''L2'', res_total_price_in_cents = 550, listing_ids = [2]\<rparr>,
          \<lparr>res_location_id = ''L1'', res_total_price_in_cents = 600, listing_ids = [1]\<rparr>,
          \<lparr>res_location_id = ''L3'', res_total_price_in_cents = 600, listing_ids = [3]\<rparr>] \<and>
   first_index ''L1'' (map location_id
     [\<lparr>listing_id = (1::nat), location_id = ''L1'', width = 10, listing_length = 10,
        price_in_cents = 600\<rparr>,
      \<lparr>listing_id = 2, location_id = ''L2'', width = 10, listing_length = 10,
        price_in_cents = 550\<rparr>,
      \<lparr>listing_id = 3, location_id = ''L3'', width = 10, listing_length = 10,
        price_in_cents = 600\<rparr>,
      \<lparr>listing_id = 4, location_id = ''L4'', width = 5, listing_length = 5,
        price_in_cents = 100\<rparr>])
   < first_index ''L3'' (map location_id
     [\<lparr>listing_id = (1::nat), location_id = ''L1'', width = 10, listing_length = 10,
        price_in_cents = 600\<rparr>,
      \<lparr>listing_id = 2, location_id = ''L2'', width = 10, listing_length = 10,
        price_in_cents = 550\<rparr>,
      \<lparr>listing_id = 3, location_id = ''L3'', width = 10, listing_length = 10,
        price_in_cents = 600\<rparr>,
      \<lparr>listing_id = 4, location_id = ''L4'', width = 5, listing_length = 5,
        price_in_cents = 100\<rparr>])"
proof -
  have e: "find_best_solution_with_grouping remdups [\<lparr>vehicle_length = 10, quantity = 1\<rparr>]
     [\<lparr>listing_id = (1::nat), location_id = ''L1'', width = 10, listing_length = 10,
        price_in_cents = 600\<rparr>,
      \<lparr>listing_id = 2, location_id = ''L2'', width = 10, listing_length = 10,
        price_in_cents = 550\<rparr>,
      \<lparr>listing_id = 3, location_id = ''L3'', width = 10, listing_length = 10,
        price_in_cents = 600\<rparr>,
      \<lparr>listing_id = 4, location_id = ''L4'', width = 5, listing_length = 5,
        price_in_cents = 100\<rparr>]
   = Inr [\<lparr>res_location_id = ''L2'', res_total_price_in_cents = 550, listing_ids = [2]\<rparr>,
          \<lparr>res_location_id = ''L1'', res_total_price_in_cents = 600, listing_ids = [1]\<rparr>,
          \<lparr>res_location_id = ''L3'', res_total_price_in_cents = 600, listing_ids = [3]\<rparr>]"
    by code_simp
  from results_ranked_and_feasible [of remdups "[\<lparr>vehicle_length = 10, quantity = 1\<rparr>]"
     "[\<lparr>listing_id = (1::nat), location_id = ''L1'', width = 10, listing_length = 10,
        price_in_cents = 600\<rparr>,
      \<lparr>listing_id = 2, location_id = ''L2'', width = 10, listing_length = 10,
        price_in_cents = 550\<rparr>,
      \<lparr>listing_id = 3, location_id = ''L3'', width = 10, listing_length = 10,
        price_in_cents = 600\<rparr>,
      \<lparr>listing_id = 4, location_id = ''L4'', width = 5, listing_length = 5,
        price_in_cents = 100\<rparr>]"] e
  show ?thesis by simp
qed

text \<open>
  Claim C8, as the code has it. Every listing id of a result is the id of a listing of the
  catalog at the location of that result. When the ids of the catalog are pairwise
  distinct, a listing whose id occurs in a result is at the location of that result, so the
  id of a listing of one location never occurs in the result of another. The code never
  compares ids: without distinct ids the second sentence fails.
\<close>

theorem listing_ids_of_own_location:
  "\<exists>out. find_best_solution_with_grouping set_iter vehicle_request all_listings = Inr out \<and>
     (\<forall>r \<in> set out. \<forall>i \<in> set (listing_ids r).
        \<exists>l \<in> set all_listings. listing_id l = i \<and> location_id l = res_location_id r) \<and>
     (distinct (map listing_id all_listings) \<longrightarrow>
        (\<forall>r \<in> set out. \<forall>l \<in> set all_listings.
           listing_id l \<in> set (listing_ids r) \<longrightarrow> location_id l = res_location_id r))"
proof -
  obtain out where out: "find_best_solution_with_grouping set_iter vehicle_request all_listings = Inr out"
    by (simp add: find_best_solution_with_grouping_eq)
  have 1: "\<exists>l \<in> set all_listings. listing_id l = i \<and> location_id l = res_location_id r"
    if "r \<in> set out" "i \<in> set (listing_ids r)" for r i
  proof -
    from result_listings [OF out that(1)] obtain used where
      u: "listing_ids r = map listing_id used" "mset used \<subseteq># mset all_listings"
         "\<forall>l \<in> set used. location_id l = res_location_id r"
      by blast
    from that(2) u(1) obtain l where l: "l \<in> set used" "listing_id l = i" by auto
    from l(1) u(2) have "l \<in> set all_listings"
      by (meson mset_subset_eqD in_multiset_in_set)
    with l u(3) show ?thesis by auto
  qed
  have 2: "location_id l = res_location_id r"
    if d: "distinct (map listing_id all_listings)" and "r \<in> set out" "l \<in> set all_listings"
      "listing_id l \<in> set (listing_ids r)" for r l
  proof -
    from 1 [OF that(2) that(4)] obtain l' where
      l': "l' \<in> set all_listings" "listing_id l' = listing_id l" "location_id l' = res_location_id r"
      by blast
    from d have "inj_on listing_id (set all_listings)" by (simp add: distinct_map)
    with l'(1,2) that(3) have "l' = l" by (simp add: inj_on_def)
    with l'(3) show ?thesis by simp
  qed
  from out 1 2 show ?thesis by blast
qed

theorem listing_ids_of_own_location_witness:
  "find_best_solution_with_grouping remdups [\<lparr>vehicle_length = 10, quantity = 1\<rparr>]
     [\<lparr>listing_id = (1::nat), location_id = ''L1'', width = 10, listing_length = 10,
        price_in_cents = 600\<rparr>,
      \<lparr>listing_id = 2, location_id = ''L2'', width = 10, listing_length = 10,
        price_in_cents = 550\<rparr>,
      \<lparr>listing_id = 3, location_id = ''L3'', width = 10, listing_length = 10,
        price_in_cents = 600\<rparr>,
      \<lparr>listing_id = 4, location_id = ''L4'', width = 5, listing_length = 5,
        price_in_cents = 100\<rparr>]
   = Inr [\<lparr>res_location_id = ''L2'', res_total_price_in_cents = 550, listing_ids = [2]\<rparr>,
          \<lparr>res_location_id = ''L1'', res_total_price_in_cents = 600, listing_ids = [1]\<rparr>,
          \<lparr>res_location_id = ''L3'', res_total_price_in_cents = 600, listing_ids = [3]\<rparr>] \<and>
   distinct (map listing_id
     [\<lparr>listing_id = (1::nat), location_id = ''L1'', width = 10, listing_length = 10,
        price_in_cents = 600\<rparr>,
      \<lparr>listing_id = 2, location_id = ''L2'', width = 10, listing_length = 10,
        price_in_cents = 550\<rparr>,
      \<lparr>listing_id = 3, location_id = ''L3'', width = 10, listing_length = 10,
        price_in_cents = 600\<rparr>,
      \<lparr>listing_id = 4, location_id = ''L4'', width = 5, listing_length = 5,
        price_in_cents = 100\<rparr>])"
proof -
  have e: "find_best_solution_with_grouping remdups [\<lparr>vehicle_length = 10, quantity = 1\<rparr>]
     [\<lparr>listing_id = (1::nat), location_id = ''L1'', width = 10, listing_length = 10,
        price_in_cents = 600\<rparr>,
      \<lparr>listing_id = 2, location_id = ''L2'', width = 10, listing_length = 10,
        price_in_cents = 550\<rparr>,
      \<lparr>listing_id = 3, location_id = ''L3'', width = 10, listing_length = 10,
        price_in_cents = 600\<rparr>,
      \<lparr>listing_id = 4, location_id = ''L4'', width = 5, listing_length = 5,
        price_in_cents = 100\<rparr>]
   = Inr [\<lparr>res_location_id = ''L2'', res_total_price_in_cents = 550, listing_ids = [2]\<rparr>,
          \<lparr>res_location_id = ''L1'', res_total_price_in_cents = 600, listing_ids = [1]\<rparr>,
          \<lparr>res_location_id = ''L3'', res_total_price_in_cents = 600, listing_ids = [3]\<rparr>]"
    by code_simp
  from listing_ids_of_own_location [of remdups "[\<lparr>vehicle_length = 10, quantity = 1\<rparr>]"
     "[\<lparr>listing_id = (1::nat), location_id = ''L1'', width = 10, listing_length = 10,
        price_in_cents = 600\<rparr>,
      \<lparr>listing_id = 2, location_id = ''L2'', width = 10, listing_length = 10,
        price_in_cents = 550\<rparr>,
      \<lparr>listing_id = 3, location_id = ''L3'', width = 10, listing_length = 10,
        price_in_cents = 600\<rparr>,
      \<lparr>listing_id = 4, location_id = ''L4'', width = 5, listing_length = 5,
        price_in_cents = 100\<rparr>]"] e
  show ?thesis by simp
qed

text \<open>
  Claim C8 as stated fails for a catalog in which one id is used at two locations: with a
  listing of id 1 at L1 and another of id 1 at L2, the result of L1 contains the id of the
  listing of L2 (and the result of L2 the id of the listing of L1).
\<close>

theorem shared_id_counterexample:
  "find_best_solution_with_grouping remdups [\<lparr>vehicle_length = 10, quantity = 1\<rparr>]
     [\<lparr>listing_id = (1::nat), location_id = ''L1'', width = 10, listing_length = 10,
        price_in_cents = 300\<rparr>,
      \<lparr>listing_id = 1, location_id = ''L2'', width = 10, listing_length = 10,
        price_in_cents = 400\<rparr>]
   = Inr [\<lparr>res_location_id = ''L1'', res_total_price_in_cents = 300, listing_ids = [1]\<rparr>,
          \<lparr>res_location_id = ''L2'', res_total_price_in_cents = 400, listing_ids = [1]\<rparr>] \<and>
   listing_id \<lparr>listing_id = (1::nat), location_id = ''L2'', width = 10, listing_length = 10,
        price_in_cents = 400\<rparr>
     \<in> set (listing_ids \<lparr>res_location_id = ''L1'', res_total_price_in_cents = 300,
                           listing_ids = [1::nat]\<rparr>) \<and>
   location_id \<lparr>listing_id = (1::nat), location_id = ''L2'', width = 10, listing_length = 10,
        price_in_cents = 400\<rparr>
     \<noteq> res_location_id \<lparr>res_location_id = ''L1'', res_total_price_in_cents = 300,
                           listing_ids = [1::nat]\<rparr>"
  by code_simp

text \<open>
  Claim C9. When the ids of the catalog are pairwise distinct, no listing id occurs twice in
  the listing ids of a result.
\<close>

theorem listing_ids_distinct:
  assumes "distinct (map listing_id all_listings)"
  shows "\<exists>out. find_best_solution_with_grouping set_iter vehicle_request all_listings = Inr out \<and>
           (\<forall>r \<in> set out. distinct (listing_ids r))"
proof -
  obtain out where out: "find_best_solution_with_grouping set_iter vehicle_request all_listings = Inr out"
    by (simp add: find_best_solution_with_grouping_eq)
  have "distinct (listing_ids r)" if "r \<in> set out" for r
  proof -
    from result_listings [OF out that] obtain used where
      u: "listing_ids r = map listing_id used" "mset used \<subseteq># mset all_listings"
      by blast
    from u(2) have "mset (map listing_id used) \<subseteq># mset (map listing_id all_listings)"
      by (simp add: image_mset_subseteq_mono)
    then have "distinct (map listing_id used)" using assms by (rule distinct_subseteq)
    with u(1) show ?thesis by simp
  qed
  with out show ?thesis by blast
qed

theorem listing_ids_distinct_witness:
  "distinct (map listing_id
     [\<lparr>listing_id = (1::nat), location_id = ''L1'', width = 10, listing_length = 10,
        price_in_cents = 300\<rparr>,
      \<lparr>listing_id = 2, location_id = ''L1'', width = 10, listing_length = 10,
        price_in_cents = 300\<rparr>,
      \<lparr>listing_id = 3, location_id = ''L1'', width = 10, listing_length = 10,
        price_in_cents = 400\<rparr>]) \<and>
   find_best_solution_with_grouping remdups [\<lparr>vehicle_length = 10, quantity = 2\<rparr>, \<lparr>vehicle_length = 10, quantity = 1\<rparr>]
     [\<lparr>listing_id = (1::nat), location_id = ''L1'', width = 10, listing_length = 10,
        price_in_cents = 300\<rparr>,
      \<lparr>listing_id = 2, location_id = ''L1'', width = 10, listing_length = 10,
        price_in_cents = 300\<rparr>,
      \<lparr>listing_id = 3, location_id = ''L1'', width = 10, listing_length = 10,
        price_in_cents = 400\<rparr>]
   = Inr [\<lparr>res_location_id = ''L1'', res_total_price_in_cents = 1000, listing_ids = [1, 2, 3]\<rparr>] \<and>
   distinct [1::nat, 2, 3]"
proof -
  have d: "distinct (map listing_id
     [\<lparr>listing_id = (1::nat), location_id = ''L1'', width = 10, listing_length = 10,
        price_in_cents = 300\<rparr>,
      \<lparr>listing_id = 2, location_id = ''L1'', width = 10, listing_length = 10,
        price_in_cents = 300\<rparr>,
      \<lparr>listing_id = 3, location_id = ''L1'', width = 10, listing_length = 10,
        price_in_cents = 400\<rparr>])"
    by simp
  have e: "find_best_solution_with_grouping remdups [\<lparr>vehicle_length = 10, quantity = 2\<rparr>, \<lparr>vehicle_length = 10, quantity = 1\<rparr>]
     [\<lparr>listing_id = (1::nat), location_id = ''L1'', width = 10, listing_length = 10,
        price_in_cents = 300\<rparr>,
      \<lparr>listing_id = 2, location_id = ''L1'', width = 10, listing_length = 10,
        price_in_cents = 300\<rparr>,
      \<lparr>listing_id = 3, location_id = ''L1'', width = 10, listing_length = 10,
        price_in_cents = 400\<rparr>]
   = Inr [\<lparr>res_location_id = ''L1'', res_total_price_in_cents = 1000, listing_ids = [1, 2, 3]\<rparr>]"
    by code_simp
  from listing_ids_distinct [OF d, of remdups "[\<lparr>vehicle_length = 10, quantity = 2\<rparr>, \<lparr>vehicle_length = 10, quantity = 1\<rparr>]"] e d
  show ?thesis by simp
qed

end
